theory Spec2Isabelle
  imports Main "HOL-Library.Word"
begin

section \<open>The thread pool of src/runtime/thread\_pool\_common.h\<close>

text \<open>
  Pointers are addresses (natural numbers, \<open>0\<close> is \<open>NULL\<close>). The value of a semaphore is
  a C \<open>int\<close> that is only touched through \<open>__sync_add_and_fetch\<close>, which wraps around: it
  is a 32-bit word, compared as a signed number. The other \<open>int\<close> fields (iteration
  ranges, thread counts, statuses) are counters on which signed overflow would be
  undefined behaviour of the source; they are mathematical integers here.
\<close>

type_synonym addr = nat
type_synonym int32 = "32 word"

subsection \<open>Semaphores\<close>

text \<open>
  \<open>struct halide_semaphore_impl_t { int value; }\<close>: the memory holding the semaphores is
  a store from the address of a semaphore to its value.
\<close>

type_synonym sem_store = "addr \<Rightarrow> int32"

definition halide_default_semaphore_init :: "sem_store \<Rightarrow> addr \<Rightarrow> int32 \<Rightarrow> sem_store \<times> int32" where
  "halide_default_semaphore_init S s n = (S(s := n), n)"

text \<open>
  \<open>halide_default_semaphore_try_acquire\<close>: decrement and read the new value; when it is
  negative, increment again and fail.
\<close>

definition halide_default_semaphore_try_acquire :: "sem_store \<Rightarrow> addr \<Rightarrow> int32 \<Rightarrow> sem_store \<times> bool" where
  "halide_default_semaphore_try_acquire S s n =
     (let S1 = S(s := S s - n);
          new_val = S1 s
      in if new_val <s 0 then (S1(s := S1 s + n), False) else (S1, True))"

subsection \<open>Task descriptors and jobs\<close>

text \<open>
  \<open>halide_semaphore_acquire_t\<close> and \<open>halide_parallel_task_t\<close> are declared in the runtime's
  public header; their fields are the ones this file reads. The array \<open>semaphores\<close> with
  its length \<open>num_semaphores\<close> is a list.
\<close>

record halide_semaphore_acquire_t =
  semaphore :: addr
  count :: int32

record halide_parallel_task_t =
  fn :: addr
  closure :: addr
  name :: addr
  semaphores :: "halide_semaphore_acquire_t list"
  min_t :: int
  extent :: int
  min_threads :: int
  serial :: bool
  may_block :: bool

definition num_semaphores :: "halide_parallel_task_t \<Rightarrow> nat" where
  "num_semaphores t = length (semaphores t)"

text \<open>
  \<open>struct work\<close>. The link \<open>next_job\<close> is not a field here: the job stack is the list of
  the addresses of its jobs, top first (see \<open>work_queue_t\<close>). \<open>next_semaphore\<close> is only
  ever set to 0 and incremented, it is a natural number.
\<close>

record work =
  task :: halide_parallel_task_t
  task_fn :: addr
  parent :: addr
  user_context :: addr
  active_workers :: int
  exit_status :: int
  next_semaphore :: nat
  owner_is_sleeping :: bool

text \<open>
  \<open>work::make_runnable\<close>: the \<open>for\<close> loop over the semaphores from \<open>next_semaphore\<close> on.
  The semaphores live in shared memory, so the store is threaded through.
\<close>

function make_runnable :: "sem_store \<Rightarrow> work \<Rightarrow> sem_store \<times> work \<times> bool" where
  "make_runnable S w =
     (if next_semaphore w < num_semaphores (task w) then
        (case halide_default_semaphore_try_acquire S
                (semaphore (semaphores (task w) ! next_semaphore w))
                (count (semaphores (task w) ! next_semaphore w)) of
           (S', False) \<Rightarrow> (S', w, False)
         | (S', True) \<Rightarrow> make_runnable S' (w\<lparr>next_semaphore := next_semaphore w + 1\<rparr>))
      else (S, w\<lparr>next_semaphore := 0\<rparr>, True))"
  by pat_completeness auto
termination
  by (relation "measure (\<lambda>(S, w). num_semaphores (task w) - next_semaphore w)") auto

declare make_runnable.simps [simp del]

definition running :: "work \<Rightarrow> bool" where
  "running w = (extent (task w) \<noteq> 0 \<or> active_workers w \<noteq> 0)"

text \<open>
  The store after the acquisitions \<open>xs\<close> have all been taken, none given back.
\<close>

definition acquired :: "sem_store \<Rightarrow> halide_semaphore_acquire_t list \<Rightarrow> sem_store" where
  "acquired S xs = foldl (\<lambda>S' a. S'(semaphore a := S' (semaphore a) - count a)) S xs"

definition acquired_upto ::
  "sem_store \<Rightarrow> halide_semaphore_acquire_t list \<Rightarrow> nat \<Rightarrow> nat \<Rightarrow> sem_store" where
  "acquired_upto S xs i k = acquired S (take (k - i) (drop i xs))"

subsection \<open>The work queue\<close>

definition MAX_THREADS :: int where
  "MAX_THREADS = 256"

definition clamp_num_threads :: "int \<Rightarrow> int" where
  "clamp_num_threads threads' =
     (if threads' > MAX_THREADS then MAX_THREADS
      else if threads' < 1 then 1
      else threads')"

text \<open>
  \<open>default_desired_num_threads\<close> reads the process environment. What \<open>getenv\<close> finds
  for the two variable names, libc's \<open>atoi\<close>, the host's CPU count and the handle that
  \<open>halide_spawn_thread\<close> returns for the k-th thread are parameters.
\<close>

record environment =
  getenv_HL_NUM_THREADS :: "string option"
  getenv_HL_NUMTHREADS :: "string option"
  atoi :: "string \<Rightarrow> int"
  halide_host_cpu_count :: int
  halide_spawn_thread :: "int \<Rightarrow> addr"

definition default_desired_num_threads :: "environment \<Rightarrow> int" where
  "default_desired_num_threads env =
     (let threads_str = (case getenv_HL_NUM_THREADS env of
                           None \<Rightarrow> getenv_HL_NUMTHREADS env
                         | Some str \<Rightarrow> Some str)
      in case threads_str of
           Some str \<Rightarrow> atoi env str
         | None \<Rightarrow> halide_host_cpu_count env)"

text \<open>
  \<open>struct work_queue_t\<close>. The job stack \<open>jobs\<close> (a singly linked list through \<open>next_job\<close>)
  is the list of the addresses of the jobs on it, top first. \<open>threads\<close> is the array of
  \<open>MAX_THREADS\<close> thread handles. The mutex is not a field: every operation below, from
  taking the lock to releasing it, is one transition. The three condition variables
  have no state of their own either; the broadcasts issued are logged (see \<open>machine\<close>).
\<close>

record work_queue_t =
  jobs :: "addr list"
  threads_created :: int
  desired_threads_working :: int
  a_team_size :: int
  target_a_team_size :: int
  workers_sleeping :: int
  owners_sleeping :: int
  threads :: "addr list"
  shutdown :: bool
  initialized :: bool

datatype halide_cond = wake_a_team | wake_b_team | wake_owners

text \<open>
  The shared memory of the process: the global \<open>work_queue\<close>, the jobs that live in the
  stack frames of their owners (\<open>None\<close>: no job has been written at that address), the
  semaphores, and the log of the broadcasts on the condition variables, oldest first.
\<close>

record machine =
  work_queue :: work_queue_t
  mem :: "addr \<Rightarrow> work option"
  sem :: sem_store
  broadcasts :: "halide_cond list"

text \<open>
  What is undefined behaviour in the source is an error value here: reading a job that
  was never written, writing \<open>threads[i]\<close> outside the array, and moving past the end
  of an array of tasks or jobs.
\<close>

datatype error = UninitializedJob addr | ThreadArrayOverflow int | TaskArrayOverrun nat

definition halide_cond_broadcast :: "halide_cond \<Rightarrow> machine \<Rightarrow> machine" where
  "halide_cond_broadcast c m = m\<lparr>broadcasts := broadcasts m @ [c]\<rparr>"

subsection \<open>enqueue\_work\_already\_locked\<close>

text \<open>The lazy initialisation at the head of \<open>enqueue_work_already_locked\<close>.\<close>

definition initialize_if_needed :: "environment \<Rightarrow> work_queue_t \<Rightarrow> work_queue_t" where
  "initialize_if_needed env q =
     (if \<not> initialized q then
        q\<lparr>shutdown := False,
          jobs := [],
          desired_threads_working :=
            clamp_num_threads (if desired_threads_working q = 0
                               then default_desired_num_threads env
                               else desired_threads_working q),
          a_team_size := 0,
          target_a_team_size := 0,
          threads_created := 0,
          workers_sleeping := 0,
          owners_sleeping := 0,
          initialized := True\<rparr>
      else q)"

text \<open>
  The first \<open>for\<close> loop: the triple is \<open>(min_threads, workers_to_wake, stealable_jobs)\<close>,
  started at \<open>(0, -1, false)\<close>.
\<close>

fun gather_work :: "work list \<Rightarrow> int \<times> int \<times> bool \<Rightarrow> int \<times> int \<times> bool" where
  "gather_work [] acc = acc"
| "gather_work (w # ws) (min_threads', workers_to_wake, stealable_jobs) =
     gather_work ws
       (if \<not> may_block (task w) then min_threads' else min_threads' + min_threads (task w),
        if serial (task w) then workers_to_wake + 1 else workers_to_wake + extent (task w),
        if \<not> may_block (task w) then True else stealable_jobs)"

text \<open>
  The spawn loop. \<open>threads[threads_created++] = halide_spawn_thread(...)\<close> writes into an
  array of \<open>MAX_THREADS\<close> entries.
\<close>

function spawn_threads :: "environment \<Rightarrow> int \<Rightarrow> work_queue_t \<Rightarrow> error + work_queue_t" where
  "spawn_threads env min_threads' q =
     (if threads_created q < desired_threads_working q - 1 \<or> threads_created q < min_threads' - 1 then
        (if 0 \<le> threads_created q \<and> threads_created q < MAX_THREADS then
           spawn_threads env min_threads'
             (q\<lparr>a_team_size := a_team_size q + 1,
                threads := (threads q)[nat (threads_created q) :=
                              halide_spawn_thread env (threads_created q)],
                threads_created := threads_created q + 1\<rparr>)
         else Inl (ThreadArrayOverflow (threads_created q)))
      else Inr q)"
  by pat_completeness auto
termination
  by (relation "measure (\<lambda>(env, m, q).
        nat (max (desired_threads_working q - 1) (m - 1) - threads_created q))") auto

declare spawn_threads.simps [simp del]

text \<open>
  The second \<open>for\<close> loop pushes \<open>jobs[num_jobs - 1]\<close> first and \<open>jobs[0]\<close> last; it is
  called on the reversed list of the addresses. \<open>parent_id\<close> is the address of the local
  variable of that name.
\<close>

fun push_jobs :: "addr \<Rightarrow> addr list \<Rightarrow> machine \<Rightarrow> machine" where
  "push_jobs parent_id [] m = m"
| "push_jobs parent_id (j # js) m =
     push_jobs parent_id js
       (m\<lparr>mem := (mem m)(j := map_option (\<lambda>w. w\<lparr>parent := parent_id\<rparr>) (mem m j)),
          work_queue := (work_queue m)\<lparr>jobs := j # jobs (work_queue m)\<rparr>\<rparr>)"

definition wake_threads :: "int \<Rightarrow> bool \<Rightarrow> machine \<Rightarrow> machine" where
  "wake_threads workers_to_wake stealable_jobs m =
     (let q = work_queue m;
          nested_parallelism = (owners_sleeping q \<noteq> 0 \<or> workers_sleeping q < threads_created q);
          q' = (if nested_parallelism \<or> workers_to_wake > workers_sleeping q
                then q\<lparr>target_a_team_size := threads_created q\<rparr>
                else q\<lparr>target_a_team_size := workers_to_wake\<rparr>);
          m1 = halide_cond_broadcast wake_a_team (m\<lparr>work_queue := q'\<rparr>)
      in if target_a_team_size q' > a_team_size q' then
           (let m2 = halide_cond_broadcast wake_b_team m1
            in if stealable_jobs then halide_cond_broadcast wake_owners m2 else m2)
         else m1)"

definition read_jobs :: "(addr \<Rightarrow> work option) \<Rightarrow> addr list \<Rightarrow> error + work list" where
  "read_jobs M js =
     (case find (\<lambda>j. M j = None) js of
        Some j \<Rightarrow> Inl (UninitializedJob j)
      | None \<Rightarrow> Inr (map (\<lambda>j. the (M j)) js))"

text \<open>
  \<open>enqueue_work_already_locked(num_jobs, jobs)\<close>: \<open>js\<close> are the addresses
  \<open>jobs + 0, ..., jobs + (num_jobs - 1)\<close>.
\<close>

definition enqueue_work_already_locked ::
  "environment \<Rightarrow> addr \<Rightarrow> addr list \<Rightarrow> machine \<Rightarrow> error + machine" where
  "enqueue_work_already_locked env parent_id js m =
     (case read_jobs (mem m) js of
        Inl e \<Rightarrow> Inl e
      | Inr ws \<Rightarrow>
          (case gather_work ws (0, -1, False) of
             (min_threads', workers_to_wake, stealable_jobs) \<Rightarrow>
               (case spawn_threads env min_threads' (initialize_if_needed env (work_queue m)) of
                  Inl e \<Rightarrow> Inl e
                | Inr q \<Rightarrow>
                    Inr (wake_threads workers_to_wake stealable_jobs
                           (push_jobs parent_id (rev js) (m\<lparr>work_queue := q\<rparr>))))))"

subsection \<open>halide\_set\_num\_threads\<close>

text \<open>
  Returns the old value. For \<open>n < 0\<close> the source first calls \<open>halide_error\<close>, the
  embedder's handler, and, when that returns, goes on.
\<close>

definition halide_set_num_threads :: "environment \<Rightarrow> int \<Rightarrow> machine \<Rightarrow> int \<times> machine" where
  "halide_set_num_threads env n m =
     (let n' = (if n = 0 then default_desired_num_threads env else n);
          old = desired_threads_working (work_queue m)
      in (old, m\<lparr>work_queue := (work_queue m)\<lparr>desired_threads_working := clamp_num_threads n'\<rparr>\<rparr>))"

subsection \<open>Entering halide\_default\_do\_par\_for and halide\_default\_do\_parallel\_tasks\<close>

text \<open>
  Both calls build their jobs in the caller's stack frame, enqueue them and then run
  \<open>worker_thread_already_locked\<close> as the owner of each. Entering a call either returns a
  status at once or leaves the caller about to join the jobs it has enqueued.
\<close>

datatype entered = Return_now int | Join "addr list"

text \<open>
  The job \<open>halide_default_do_par_for\<close> builds. \<open>parent\<close> is not written before
  \<open>enqueue_work_already_locked\<close> writes it (\<open>0\<close> here).
\<close>

definition par_for_job :: "addr \<Rightarrow> addr \<Rightarrow> int \<Rightarrow> int \<Rightarrow> addr \<Rightarrow> work" where
  "par_for_job user_context' f min' size' closure' =
     \<lparr>task = \<lparr>fn = 0, closure = closure', name = 0, semaphores = [],
              min_t = min', extent = size', min_threads = 1,
              serial = False, may_block = False\<rparr>,
      task_fn = f, parent = 0, user_context = user_context',
      active_workers = 0, exit_status = 0, next_semaphore = 0,
      owner_is_sleeping = False\<rparr>"

definition halide_default_do_par_for_enter ::
  "environment \<Rightarrow> addr \<Rightarrow> addr \<Rightarrow> addr \<Rightarrow> addr \<Rightarrow> int \<Rightarrow> int \<Rightarrow> addr \<Rightarrow> machine
   \<Rightarrow> error + (entered \<times> machine)" where
  "halide_default_do_par_for_enter env parent_id job user_context' f min' size' closure' m =
     (if size' \<le> 0 then Inr (Return_now 0, m)
      else
        (case enqueue_work_already_locked env parent_id [job]
                (m\<lparr>mem := (mem m)(job \<mapsto> par_for_job user_context' f min' size' closure')\<rparr>) of
           Inl e \<Rightarrow> Inl e
         | Inr m' \<Rightarrow> Inr (Join [job], m')))"

text \<open>
  The job that the copy loop of \<open>halide_default_do_parallel_tasks\<close> writes for a task.
\<close>

definition task_job :: "addr \<Rightarrow> halide_parallel_task_t \<Rightarrow> work" where
  "task_job user_context' t =
     \<lparr>task = t, task_fn = 0, parent = 0, user_context = user_context',
      active_workers = 0, exit_status = 0, next_semaphore = 0,
      owner_is_sleeping = False\<rparr>"

text \<open>
  The copy loop: \<open>tp\<close> is how far the pointer \<open>tasks\<close> has moved, \<open>i\<close> the loop index,
  \<open>num_tasks\<close> the (shrinking) bound and \<open>jobs\<close> the array from \<open>alloca\<close>, whose entries
  hold nothing until they are written.
\<close>

function copy_tasks ::
  "addr \<Rightarrow> halide_parallel_task_t list \<Rightarrow> nat \<Rightarrow> int \<Rightarrow> int \<Rightarrow> work option list
   \<Rightarrow> error + (int \<times> work option list)" where
  "copy_tasks user_context' tasks tp i num_tasks jobs' =
     (if i < num_tasks then
        (if tp < length tasks \<and> 0 \<le> i \<and> nat i < length jobs' then
           (if extent (tasks ! tp) \<le> 0 then
              copy_tasks user_context' tasks tp (i + 1) (num_tasks - 1) jobs'
            else
              copy_tasks user_context' tasks (tp + 1) (i + 1) num_tasks
                (jobs'[nat i := Some (task_job user_context' (tasks ! tp))]))
         else Inl (TaskArrayOverrun tp))
      else Inr (num_tasks, jobs'))"
  by pat_completeness auto
termination
  by (relation "measure (\<lambda>(u, ts, tp, i, n, js). nat (n - i))") auto

declare copy_tasks.simps [simp del]

text \<open>The array \<open>xs\<close> laid out in memory from address \<open>base\<close> on.\<close>

definition store_array :: "(addr \<Rightarrow> 'a option) \<Rightarrow> addr \<Rightarrow> 'a option list \<Rightarrow> (addr \<Rightarrow> 'a option)" where
  "store_array M base xs =
     (\<lambda>a. if base \<le> a \<and> a < base + length xs then xs ! (a - base) else M a)"

definition halide_default_do_parallel_tasks_enter ::
  "environment \<Rightarrow> addr \<Rightarrow> addr \<Rightarrow> addr \<Rightarrow> halide_parallel_task_t list \<Rightarrow> machine
   \<Rightarrow> error + (entered \<times> machine)" where
  "halide_default_do_parallel_tasks_enter env parent_id jobs_base user_context' tasks m =
     (case copy_tasks user_context' tasks 0 0 (int (length tasks))
             (replicate (length tasks) None) of
        Inl e \<Rightarrow> Inl e
      | Inr (num_tasks, jobs') \<Rightarrow>
          if num_tasks = 0 then Inr (Return_now 0, m)
          else
            (case enqueue_work_already_locked env parent_id
                    (map (\<lambda>i. jobs_base + i) [0..<nat num_tasks])
                    (m\<lparr>mem := store_array (mem m) jobs_base jobs'\<rparr>) of
               Inl e \<Rightarrow> Inl e
             | Inr m' \<Rightarrow> Inr (Join (map (\<lambda>i. jobs_base + i) [0..<nat num_tasks]), m')))"

text \<open>
  The process image before anything has run: the global \<open>work_queue\<close> is zero-filled
  and no job has been written.
\<close>

definition initial_machine :: machine where
  "initial_machine =
     \<lparr>work_queue = \<lparr>jobs = [], threads_created = 0, desired_threads_working = 0,
                    a_team_size = 0, target_a_team_size = 0,
                    workers_sleeping = 0, owners_sleeping = 0,
                    threads = replicate 256 0, shutdown = False, initialized = False\<rparr>,
      mem = (\<lambda>_. None), sem = (\<lambda>_. 0), broadcasts = []\<rparr>"

subsection \<open>worker\_thread\_already\_locked: finding a job\<close>

text \<open>
  The inner \<open>while (job)\<close> loop walks the stack from the top. \<open>before\<close> are the jobs
  already passed (so \<open>prev_ptr\<close> points behind them), the fourth argument is the rest of
  the stack. \<open>owned_parent\<close> is \<open>None\<close> for a worker (\<open>owned_job\<close> is \<open>NULL\<close>) and
  \<open>owned_job->parent\<close> for an owner; the loop writes no \<open>parent\<close> field, so it is read
  once. \<open>make_runnable\<close> is only called when \<open>may_try && enough_threads\<close> holds, and
  what it did to the job and the semaphores stays when it fails. The result is the
  split of the stack around the job found, or \<open>None\<close> when the walk reached the end.
\<close>

definition threads_that_could_assist :: "work_queue_t \<Rightarrow> work \<Rightarrow> int" where
  "threads_that_could_assist q w =
     1 + workers_sleeping q
       + (if \<not> may_block (task w) then owners_sleeping q
          else if owner_is_sleeping w then 1 else 0)"

definition enough_threads :: "work_queue_t \<Rightarrow> work \<Rightarrow> bool" where
  "enough_threads q w = (min_threads (task w) \<le> threads_that_could_assist q w)"

definition may_try :: "addr option \<Rightarrow> work \<Rightarrow> bool" where
  "may_try owned_parent w =
     ((owned_parent = None \<or> owned_parent = Some (parent w) \<or> \<not> may_block (task w))
      \<and> (\<not> serial (task w) \<or> active_workers w = 0))"

fun find_job ::
  "addr option \<Rightarrow> work_queue_t \<Rightarrow> addr list \<Rightarrow> addr list \<Rightarrow> (addr \<Rightarrow> work option) \<Rightarrow> sem_store
   \<Rightarrow> error + ((addr list \<times> addr \<times> addr list) option \<times> (addr \<Rightarrow> work option) \<times> sem_store)" where
  "find_job owned_parent q before [] M S = Inr (None, M, S)"
| "find_job owned_parent q before (job # rest) M S =
     (case M job of
        None \<Rightarrow> Inl (UninitializedJob job)
      | Some w \<Rightarrow>
          if may_try owned_parent w \<and> enough_threads q w then
            (case make_runnable S w of
               (S', w', True) \<Rightarrow> Inr (Some (before, job, rest), M(job \<mapsto> w'), S')
             | (S', w', False) \<Rightarrow>
                 find_job owned_parent q (before @ [job]) rest (M(job \<mapsto> w')) S')
          else find_job owned_parent q (before @ [job]) rest M S)"

subsection \<open>worker\_thread\_already\_locked: the loop body\<close>

text \<open>
  Where a thread is inside \<open>worker_thread_already_locked\<close>, between two of the sections
  it runs with the mutex held: at the head of the outer loop; inside \<open>halide_cond_wait\<close>
  on one of the condition variables; running one iteration of a parallel job with the
  mutex released (\<open>job\<close> and the copy \<open>myjob\<close>); in the serial section with the mutex
  released (\<open>job\<close>, \<open>iters\<close>, \<open>result\<close>). The last two say what has become of the thread
  once the loop is left: a worker thread has ended, a call has returned its status.
\<close>

datatype activity =
    AtLoopHead
  | InCondWait halide_cond
  | InParallelTask addr work
  | InSerialTask addr int int
  | Exited
  | Returned int

text \<open>The condition of the outer \<open>while\<close>.\<close>

definition loop_condition :: "addr option \<Rightarrow> machine \<Rightarrow> error + bool" where
  "loop_condition owned_job m =
     (case owned_job of
        None \<Rightarrow> Inr (\<not> shutdown (work_queue m))
      | Some a \<Rightarrow>
          (case mem m a of
             None \<Rightarrow> Inl (UninitializedJob a)
           | Some w \<Rightarrow> Inr (running w)))"

text \<open>
  No runnable job: the code up to \<open>halide_cond_wait\<close>, which gives the mutex up, and the
  code after it.
\<close>

definition go_to_sleep :: "addr option \<Rightarrow> machine \<Rightarrow> halide_cond \<times> machine" where
  "go_to_sleep owned_job m =
     (let q = work_queue m in
      case owned_job of
        Some a \<Rightarrow>
          (wake_owners,
           m\<lparr>work_queue := q\<lparr>owners_sleeping := owners_sleeping q + 1\<rparr>,
             mem := (mem m)(a := map_option (\<lambda>w. w\<lparr>owner_is_sleeping := True\<rparr>) (mem m a))\<rparr>)
      | None \<Rightarrow>
          (let q1 = q\<lparr>workers_sleeping := workers_sleeping q + 1\<rparr> in
           if a_team_size q1 > target_a_team_size q1
           then (wake_b_team, m\<lparr>work_queue := q1\<lparr>a_team_size := a_team_size q1 - 1\<rparr>\<rparr>)
           else (wake_a_team, m\<lparr>work_queue := q1\<rparr>)))"

definition wake_up :: "addr option \<Rightarrow> halide_cond \<Rightarrow> machine \<Rightarrow> machine" where
  "wake_up owned_job c m =
     (let q = work_queue m in
      case owned_job of
        Some a \<Rightarrow>
          m\<lparr>mem := (mem m)(a := map_option (\<lambda>w. w\<lparr>owner_is_sleeping := False\<rparr>) (mem m a)),
            work_queue := q\<lparr>owners_sleeping := owners_sleeping q - 1\<rparr>\<rparr>
      | None \<Rightarrow>
          (let q1 = (if c = wake_b_team then q\<lparr>a_team_size := a_team_size q + 1\<rparr> else q)
           in m\<lparr>work_queue := q1\<lparr>workers_sleeping := workers_sleeping q1 - 1\<rparr>\<rparr>))"

text \<open>
  The fields \<open>min\<close> and \<open>extent\<close> of a task are of type \<open>int\<close>, which is 32 bits wide.
  The loop body moves them by \<open>++\<close>, \<open>--\<close>, \<open>+=\<close> and \<open>-=\<close>, and the compiled code computes
  these in two's complement: \<open>int_wrap x\<close> is the value of type \<open>int\<close> that is left of the
  exact result \<open>x\<close>, so that \<open>min++\<close> at \<open>INT_MAX\<close> gives \<open>INT_MIN\<close>.
\<close>

definition int_wrap :: "int \<Rightarrow> int" where
  "int_wrap x = (x + 2147483648) mod 4294967296 - 2147483648"

text \<open>
  A job \<open>w\<close> at address \<open>job\<close> was found, the stack being \<open>before @ job # rest\<close>. A serial
  job is taken off the stack. From a parallel job one iteration is claimed: \<open>myjob\<close> is
  the copy taken before \<open>min\<close> and \<open>extent\<close> move on, and the job leaves the stack when
  its extent has become 0. Then the mutex is released.
\<close>

definition claim_job ::
  "addr list \<Rightarrow> addr \<Rightarrow> addr list \<Rightarrow> work \<Rightarrow> machine \<Rightarrow> activity \<times> machine" where
  "claim_job before job rest w m =
     (let w1 = w\<lparr>active_workers := active_workers w + 1\<rparr> in
      if serial (task w1) then
        (InSerialTask job 1 0,
         m\<lparr>mem := (mem m)(job \<mapsto> w1),
           work_queue := (work_queue m)\<lparr>jobs := before @ rest\<rparr>\<rparr>)
      else
        (let myjob = w1;
             w2 = w1\<lparr>task := (task w1)\<lparr>min_t := int_wrap (min_t (task w1) + 1),
                                         extent := int_wrap (extent (task w1) - 1)\<rparr>\<rparr>
         in (InParallelTask job myjob,
             m\<lparr>mem := (mem m)(job \<mapsto> w2),
               work_queue := (work_queue m)\<lparr>jobs :=
                 (if extent (task w2) = 0 then before @ rest else before @ job # rest)\<rparr>\<rparr>)))"

text \<open>
  One pass from the head of the loop, its condition being true, to the point where the
  mutex is given up: in \<open>halide_cond_wait\<close> or before running the task.
\<close>

definition dispatch :: "addr option \<Rightarrow> machine \<Rightarrow> error + (activity \<times> machine)" where
  "dispatch owned_job m =
     (case (case owned_job of
              None \<Rightarrow> Inr None
            | Some a \<Rightarrow> (case mem m a of
                           None \<Rightarrow> Inl (UninitializedJob a)
                         | Some ow \<Rightarrow> Inr (Some (parent ow)))) of
        Inl e \<Rightarrow> Inl e
      | Inr owned_parent \<Rightarrow>
          (case find_job owned_parent (work_queue m) [] (jobs (work_queue m)) (mem m) (sem m) of
             Inl e \<Rightarrow> Inl e
           | Inr (None, M', S') \<Rightarrow>
               (case go_to_sleep owned_job (m\<lparr>mem := M', sem := S'\<rparr>) of
                  (c, m') \<Rightarrow> Inr (InCondWait c, m'))
           | Inr (Some (before, job, rest), M', S') \<Rightarrow>
               (case M' job of
                  None \<Rightarrow> Inl (UninitializedJob job)
                | Some w \<Rightarrow> Inr (claim_job before job rest w (m\<lparr>mem := M', sem := S'\<rparr>)))))"

text \<open>
  The end of the loop body, with the mutex held again: a failed task sets the exit
  status, the thread is no longer active on the job, and the owner is woken when the
  job is done.
\<close>

definition finish_job :: "addr \<Rightarrow> work \<Rightarrow> int \<Rightarrow> machine \<Rightarrow> machine" where
  "finish_job job w result m =
     (let w1 = (if result \<noteq> 0 then w\<lparr>exit_status := result\<rparr> else w);
          w2 = w1\<lparr>active_workers := active_workers w1 - 1\<rparr>;
          m' = m\<lparr>mem := (mem m)(job \<mapsto> w2)\<rparr>
      in if \<not> running w2 \<and> owner_is_sleeping w2
         then halide_cond_broadcast wake_owners m' else m')"

text \<open>
  The serial section. \<open>claim_iterations\<close> is the loop
  \<open>while (job->task.extent > iters && job->make_runnable()) iters++\<close>, in which \<open>iters\<close>
  is below \<open>extent\<close> when it is incremented, so that \<open>iters++\<close> is exact.
\<close>

function claim_iterations :: "sem_store \<Rightarrow> work \<Rightarrow> int \<Rightarrow> sem_store \<times> work \<times> int" where
  "claim_iterations S w iters =
     (if extent (task w) > iters then
        (case make_runnable S w of
           (S', w', True) \<Rightarrow> claim_iterations S' w' (iters + 1)
         | (S', w', False) \<Rightarrow> (S', w', iters))
      else (S, w, iters))"
  by pat_completeness auto
termination
proof (relation "measure (\<lambda>(S, w, iters). nat (extent (task w) - iters))")
  show "wf (measure (\<lambda>(S, w, iters). nat (extent (task w) - iters)))"
    by simp
next
  fix S :: sem_store and w :: work and iters :: int and S' y w' z
  assume lt: "iters < extent (task w)"
    and y: "(S', y) = make_runnable S w" and z: "(w', z) = y" and "z = True"
  have keeps: "task (fst (snd (make_runnable S0 w0))) = task w0" for S0 w0
  proof (induction S0 w0 rule: make_runnable.induct)
    case (1 S0 w0)
    show ?case
    proof (cases "next_semaphore w0 < num_semaphores (task w0)")
      case False
      then show ?thesis by (simp add: make_runnable.simps)
    next
      case True
      obtain S1 b where acq: "halide_default_semaphore_try_acquire S0
          (semaphore (semaphores (task w0) ! next_semaphore w0))
          (count (semaphores (task w0) ! next_semaphore w0)) = (S1, b)"
        by (cases "halide_default_semaphore_try_acquire S0
          (semaphore (semaphores (task w0) ! next_semaphore w0))
          (count (semaphores (task w0) ! next_semaphore w0))")
      show ?thesis
      proof (cases b)
        case False
        with True acq show ?thesis by (simp add: make_runnable.simps)
      next
        case b: True
        from "1.IH" [OF True acq [symmetric] b [THEN eqTrueI]]
        have "task (fst (snd (make_runnable S1 (w0\<lparr>next_semaphore := next_semaphore w0 + 1\<rparr>))))
              = task w0" by simp
        with True acq b show ?thesis
          by (subst make_runnable.simps) simp
      qed
    qed
  qed
  from y z have "w' = fst (snd (make_runnable S w))"
    by (metis fst_conv snd_conv)
  with keeps have "task w' = task w" by simp
  with lt show "((S', w', iters + 1), (S, w, iters))
      \<in> measure (\<lambda>(S, w, iters). nat (extent (task w) - iters))"
    by simp
qed

declare claim_iterations.simps [simp del]

text \<open>
  One round of the loop \<open>while (result == 0)\<close>, for the job \<open>w\<close> at \<open>job\<close>; \<open>status\<close> is
  what the task body returns if it is called. Either \<open>iters\<close> iterations are claimed
  and run by one call of \<open>halide_do_loop_task\<close>, after which \<open>min\<close> and \<open>extent\<close> move on,
  or the loop is left (\<open>result\<close> was not 0, or nothing could be claimed): the mutex is
  taken, the job is pushed back on the stack if iterations remain, and the end of the
  loop body follows. The second component of the result says whether the task was called,
  and with which \<open>min\<close> and \<open>extent\<close>.
\<close>

definition serial_round ::
  "addr \<Rightarrow> work \<Rightarrow> int \<Rightarrow> int \<Rightarrow> int \<Rightarrow> machine \<Rightarrow> activity \<times> (int \<times> int) option \<times> machine" where
  "serial_round job w iters result status m =
     (case (if result = 0 then claim_iterations (sem m) w iters else (sem m, w, 0)) of
        (S', w', iters') \<Rightarrow>
          if result = 0 \<and> iters' \<noteq> 0 then
            (InSerialTask job 0 status,
             Some (min_t (task w'), iters'),
             m\<lparr>sem := S',
               mem := (mem m)(job \<mapsto> w'\<lparr>task := (task w')
                         \<lparr>min_t := int_wrap (min_t (task w') + iters'),
                          extent := int_wrap (extent (task w') - iters')\<rparr>\<rparr>)\<rparr>)
          else
            (AtLoopHead, None,
             finish_job job w' result
               (m\<lparr>sem := S',
                  work_queue := (if extent (task w') > 0
                                 then (work_queue m)\<lparr>jobs := job # jobs (work_queue m)\<rparr>
                                 else work_queue m)\<rparr>)))"

subsection \<open>Semaphores under the work queue, and shutting down\<close>

text \<open>
  \<open>halide_default_semaphore_release\<close> broadcasts when the new value equals \<open>n\<close>.
  \<open>halide_shutdown_thread_pool\<close> is in two parts, around the joining of the worker
  threads.
\<close>

definition halide_default_semaphore_release :: "addr \<Rightarrow> int32 \<Rightarrow> machine \<Rightarrow> int32 \<times> machine" where
  "halide_default_semaphore_release s n m =
     (let new_val = sem m s + n;
          m1 = m\<lparr>sem := (sem m)(s := new_val)\<rparr>
      in (new_val,
          if new_val = n
          then halide_cond_broadcast wake_owners (halide_cond_broadcast wake_a_team m1)
          else m1))"

definition shutdown_begin :: "machine \<Rightarrow> machine" where
  "shutdown_begin m =
     halide_cond_broadcast wake_owners
       (halide_cond_broadcast wake_b_team
         (halide_cond_broadcast wake_a_team
           (m\<lparr>work_queue := (work_queue m)\<lparr>shutdown := True\<rparr>\<rparr>)))"

definition shutdown_end :: "machine \<Rightarrow> machine" where
  "shutdown_end m = m\<lparr>work_queue := (work_queue m)\<lparr>initialized := False\<rparr>\<rparr>"

text \<open>
  Two memories that hold jobs at the same addresses, equal up to \<open>next_semaphore\<close>.
\<close>

definition only_next_semaphore :: "(addr \<Rightarrow> work option) \<Rightarrow> (addr \<Rightarrow> work option) \<Rightarrow> bool" where
  "only_next_semaphore M M' =
     (\<forall>a. rel_option (\<lambda>w w'. \<exists>n. w' = w\<lparr>next_semaphore := n\<rparr>) (M a) (M' a))"

subsection \<open>Threads and the system\<close>

text \<open>
  A thread is in the pool's code for one of three reasons: it is a worker thread
  (\<open>worker_thread\<close>, spawned by the enqueue code), or it has called
  \<open>halide_default_do_par_for\<close> (with the job at the given address, \<open>min\<close> and \<open>size\<close>), or
  it has called \<open>halide_default_do_parallel_tasks\<close> and joins the jobs it has enqueued
  one after the other; \<open>join_index\<close> and \<open>join_status\<close> are the locals \<open>i\<close> and
  \<open>exit_status\<close> of that loop. A task body that calls back into the pool is a caller of
  its own here.
\<close>

datatype call = Worker_thread | Par_for addr int int | Parallel_tasks "addr list"

record thread =
  call :: call
  join_index :: nat
  join_status :: int
  activity :: activity

text \<open>The argument \<open>owned_job\<close> with which the thread runs \<open>worker_thread_already_locked\<close>.\<close>

definition owned_job_of :: "thread \<Rightarrow> addr option" where
  "owned_job_of th =
     (case call th of
        Worker_thread \<Rightarrow> None
      | Par_for job min' size' \<Rightarrow> Some job
      | Parallel_tasks js \<Rightarrow> Some (js ! join_index th))"

text \<open>
  What follows \<open>worker_thread_already_locked\<close> when its loop is left; \<open>owned\<close> is the
  owned job as it is then. A worker thread ends. \<open>halide_default_do_par_for\<close> returns the
  exit status of its job. \<open>halide_default_do_parallel_tasks\<close> takes over a non-zero exit
  status of the job joined and goes on to the next job, or returns after the last.
\<close>

definition leave_loop :: "work option \<Rightarrow> thread \<Rightarrow> thread" where
  "leave_loop owned th =
     (case (call th, owned) of
        (Worker_thread, _) \<Rightarrow> th\<lparr>activity := Exited\<rparr>
      | (Par_for job min' size', Some w) \<Rightarrow> th\<lparr>activity := Returned (exit_status w)\<rparr>
      | (Parallel_tasks js, Some w) \<Rightarrow>
          (let exit_status' = (if exit_status w \<noteq> 0 then exit_status w else join_status th);
               i = join_index th + 1
           in if i < length js
              then th\<lparr>join_index := i, join_status := exit_status'\<rparr>
              else th\<lparr>join_index := i, join_status := exit_status',
                      activity := Returned exit_status'\<rparr>)
      | _ \<Rightarrow> th)"

text \<open>
  The history of a run: which job was enqueued with which task descriptor, which calls
  of a task body were made for a job (\<open>min\<close> and the number of iterations) and which
  status a call for a job returned.
\<close>

datatype event = Submit addr halide_parallel_task_t | Call addr int int | Return addr int

record system =
  shared :: machine
  pool :: "thread list"
  trace :: "event list"

definition initial_system :: system where
  "initial_system = \<lparr>shared = initial_machine, pool = [], trace = []\<rparr>"

definition new_thread :: "call \<Rightarrow> entered \<Rightarrow> thread" where
  "new_thread c e =
     \<lparr>call = c, join_index = 0, join_status = 0,
      activity = (case e of Return_now status \<Rightarrow> Returned status | Join js \<Rightarrow> AtLoopHead)\<rparr>"

text \<open>
  The worker threads that the spawn loop has started, when the call got as far as
  enqueueing: as many as \<open>threads_created\<close> has grown since the lazy initialisation. Each
  starts by taking the mutex and entering the loop.
\<close>

definition spawned :: "environment \<Rightarrow> machine \<Rightarrow> entered \<Rightarrow> machine \<Rightarrow> thread list" where
  "spawned env m e m' =
     (case e of
        Return_now status \<Rightarrow> []
      | Join js \<Rightarrow>
          replicate (nat (threads_created (work_queue m')
                          - threads_created (initialize_if_needed env (work_queue m))))
            \<lparr>call = Worker_thread, join_index = 0, join_status = 0, activity = AtLoopHead\<rparr>)"

definition submissions :: "(addr \<Rightarrow> work option) \<Rightarrow> entered \<Rightarrow> event list" where
  "submissions M e =
     (case e of
        Return_now status \<Rightarrow> []
      | Join js \<Rightarrow> concat (map (\<lambda>a. case M a of Some w \<Rightarrow> [Submit a (task w)] | None \<Rightarrow> []) js))"

definition joined_jobs :: "entered \<Rightarrow> addr list" where
  "joined_jobs e = (case e of Return_now status \<Rightarrow> [] | Join js \<Rightarrow> js)"

text \<open>
  One step of the system. Each rule is one section of code that a thread runs with the
  mutex held, or one action it takes with the mutex released. A task body may return any
  status; a thread may leave \<open>halide_cond_wait\<close> at any time; the addresses at which a
  call builds its jobs hold no job before; calls of \<open>halide_set_num_threads\<close>, of the
  semaphore functions and of \<open>halide_shutdown_thread_pool\<close> may come at any time, the
  latter ending only when every worker thread has ended.
\<close>

inductive step :: "system \<Rightarrow> system \<Rightarrow> bool" where
  call_par_for:
    "mem (shared s) job = None \<Longrightarrow>
     halide_default_do_par_for_enter env parent_id job user_context' f min' size' closure' (shared s)
       = Inr (e, m') \<Longrightarrow>
     step s \<lparr>shared = m',
             pool = pool s @ [new_thread (Par_for job min' size') e] @ spawned env (shared s) e m',
             trace = trace s @ submissions (mem m') e\<rparr>"
| call_parallel_tasks:
    "\<forall>k < length tasks. mem (shared s) (jobs_base + k) = None \<Longrightarrow>
     halide_default_do_parallel_tasks_enter env parent_id jobs_base user_context' tasks (shared s)
       = Inr (e, m') \<Longrightarrow>
     step s \<lparr>shared = m',
             pool = pool s @ [new_thread (Parallel_tasks (joined_jobs e)) e]
                      @ spawned env (shared s) e m',
             trace = trace s @ submissions (mem m') e\<rparr>"
| leave:
    "t < length (pool s) \<Longrightarrow> th = pool s ! t \<Longrightarrow> activity th = AtLoopHead \<Longrightarrow>
     loop_condition (owned_job_of th) (shared s) = Inr False \<Longrightarrow>
     step s (s\<lparr>pool := (pool s)[t := leave_loop (Option.bind (owned_job_of th) (mem (shared s))) th]\<rparr>)"
| pass:
    "t < length (pool s) \<Longrightarrow> th = pool s ! t \<Longrightarrow> activity th = AtLoopHead \<Longrightarrow>
     loop_condition (owned_job_of th) (shared s) = Inr True \<Longrightarrow>
     dispatch (owned_job_of th) (shared s) = Inr (act, m') \<Longrightarrow>
     step s \<lparr>shared = m',
             pool = (pool s)[t := th\<lparr>activity := act\<rparr>],
             trace = trace s @ (case act of
                                  InParallelTask job myjob \<Rightarrow> [Call job (min_t (task myjob)) 1]
                                | _ \<Rightarrow> [])\<rparr>"
| wake:
    "t < length (pool s) \<Longrightarrow> th = pool s ! t \<Longrightarrow> activity th = InCondWait c \<Longrightarrow>
     step s (s\<lparr>shared := wake_up (owned_job_of th) c (shared s),
               pool := (pool s)[t := th\<lparr>activity := AtLoopHead\<rparr>]\<rparr>)"
| task_returns:
    "t < length (pool s) \<Longrightarrow> th = pool s ! t \<Longrightarrow> activity th = InParallelTask job myjob \<Longrightarrow>
     mem (shared s) job = Some w \<Longrightarrow>
     step s \<lparr>shared = finish_job job w result (shared s),
             pool = (pool s)[t := th\<lparr>activity := AtLoopHead\<rparr>],
             trace = trace s @ [Return job result]\<rparr>"
| serial:
    "t < length (pool s) \<Longrightarrow> th = pool s ! t \<Longrightarrow> activity th = InSerialTask job iters result \<Longrightarrow>
     mem (shared s) job = Some w \<Longrightarrow>
     serial_round job w iters result status (shared s) = (act, called, m') \<Longrightarrow>
     step s \<lparr>shared = m',
             pool = (pool s)[t := th\<lparr>activity := act\<rparr>],
             trace = trace s @ (case called of
                                  Some (min', n) \<Rightarrow> [Call job min' n, Return job status]
                                | None \<Rightarrow> [])\<rparr>"
| set_num_threads:
    "halide_set_num_threads env n (shared s) = (old, m') \<Longrightarrow>
     step s (s\<lparr>shared := m'\<rparr>)"
| semaphore_init:
    "halide_default_semaphore_init (sem (shared s)) sema n = (S', r) \<Longrightarrow>
     step s (s\<lparr>shared := (shared s)\<lparr>sem := S'\<rparr>\<rparr>)"
| semaphore_release:
    "halide_default_semaphore_release sema n (shared s) = (r, m') \<Longrightarrow>
     step s (s\<lparr>shared := m'\<rparr>)"
| semaphore_try_acquire:
    "halide_default_semaphore_try_acquire (sem (shared s)) sema n = (S', ok) \<Longrightarrow>
     step s (s\<lparr>shared := (shared s)\<lparr>sem := S'\<rparr>\<rparr>)"
| shutdown_begins:
    "initialized (work_queue (shared s)) \<Longrightarrow>
     step s (s\<lparr>shared := shutdown_begin (shared s)\<rparr>)"
| shutdown_ends:
    "initialized (work_queue (shared s)) \<Longrightarrow> shutdown (work_queue (shared s)) \<Longrightarrow>
     list_all (\<lambda>th. call th = Worker_thread \<longrightarrow> activity th = Exited) (pool s) \<Longrightarrow>
     step s (s\<lparr>shared := shutdown_end (shared s)\<rparr>)"

inductive reachable :: "system \<Rightarrow> bool" where
  start: "reachable initial_system"
| next_state: "reachable s \<Longrightarrow> step s s' \<Longrightarrow> reachable s'"

subsection \<open>Reading the history, and what holds in every state\<close>

fun submitted :: "addr \<Rightarrow> event list \<Rightarrow> halide_parallel_task_t list" where
  "submitted a [] = []"
| "submitted a (Submit b t # es) = (if b = a then t # submitted a es else submitted a es)"
| "submitted a (e # es) = submitted a es"

fun calls_of :: "addr \<Rightarrow> event list \<Rightarrow> (int \<times> int) list" where
  "calls_of a [] = []"
| "calls_of a (Call b min' n # es) = (if b = a then (min', n) # calls_of a es else calls_of a es)"
| "calls_of a (e # es) = calls_of a es"

fun returns_of :: "addr \<Rightarrow> event list \<Rightarrow> int list" where
  "returns_of a [] = []"
| "returns_of a (Return b status # es) = (if b = a then status # returns_of a es else returns_of a es)"
| "returns_of a (e # es) = returns_of a es"

text \<open>
  The iteration indices that a list of calls \<open>(min, n)\<close> covers, in order: a call covers
  the \<open>n\<close> indices of type \<open>int\<close> that follow from \<open>min\<close> on.
\<close>

definition iterations :: "(int \<times> int) list \<Rightarrow> int list" where
  "iterations cs = concat (map (\<lambda>(min', n). map (\<lambda>k. int_wrap (min' + k)) [0 .. n - 1]) cs)"


text \<open>
  The values of type \<open>int\<close>, and the histories in which every task that was submitted
  has a \<open>min\<close> and an \<open>extent\<close> of type \<open>int\<close>, as the arguments of
  \<open>halide_default_do_par_for\<close> and the fields of \<open>halide_parallel_task_t\<close> are.
\<close>

definition is_int :: "int \<Rightarrow> bool" where
  "is_int x = (- 2147483648 \<le> x \<and> x \<le> 2147483647)"

fun int_arguments :: "event list \<Rightarrow> bool" where
  "int_arguments [] = True"
| "int_arguments (Submit a t # es) = (is_int (min_t t) \<and> is_int (extent t) \<and> int_arguments es)"
| "int_arguments (e # es) = int_arguments es"

text \<open>
  The exit status after the statuses \<open>rs\<close> have been recorded one after the other by
  \<open>if (result) exit_status = result\<close>, starting from \<open>st\<close>.
\<close>

definition status_after :: "int \<Rightarrow> int list \<Rightarrow> int" where
  "status_after st rs = foldl (\<lambda>st' r. if r \<noteq> 0 then r else st') st rs"

fun runs :: "addr \<Rightarrow> activity \<Rightarrow> bool" where
  "runs a (InParallelTask job myjob) = (job = a)"
| "runs a (InSerialTask job iters result) = (job = a)"
| "runs a _ = False"

definition running_count :: "addr \<Rightarrow> thread list \<Rightarrow> nat" where
  "running_count a ths = length (filter (\<lambda>th. runs a (activity th)) ths)"

text \<open>
  The fields of a job that say how far it has come: \<open>min\<close>, \<open>extent\<close>, \<open>serial\<close>,
  \<open>exit_status\<close> and \<open>active_workers\<close>; and the view of the memory that shows these only.
\<close>

type_synonym progress = "int \<times> int \<times> bool \<times> int \<times> int"

definition progress :: "work \<Rightarrow> progress" where
  "progress w = (min_t (task w), extent (task w), serial (task w), exit_status w, active_workers w)"

definition view :: "machine \<Rightarrow> addr \<Rightarrow> progress option" where
  "view m a = map_option progress (mem m a)"

definition dead :: "progress option \<Rightarrow> bool" where
  "dead p = (\<exists>min' ser ex. p = Some (min', 0, ser, ex, 0))"

definition status_of :: "progress option \<Rightarrow> int" where
  "status_of p = (case p of Some (min', ext, ser, ex, act) \<Rightarrow> ex | None \<Rightarrow> 0)"

text \<open>
  What holds at an address where no job has been written: nothing refers to it. What
  holds of a job that has been written, given whether it is on the stack, how many
  threads are running it, and its part of the history: it was submitted once, with a
  \<open>min\<close> and an \<open>extent\<close> of type \<open>int\<close>; \<open>extent\<close> has gone down from the submitted one by
  the number of iterations that were called and \<open>min\<close> has moved on by as many, wrapping
  around; these iterations are the first ones in order, one by one if the job is not
  serial; the extent is not negative, and positive while the job is on the stack; \<open>active_workers\<close> is the number
  of threads running the job, at most one if it is serial; the calls made for a job
  that is not serial are those that have returned and those that are running; and the
  exit status is what the returned statuses have left, unless a thread is in the
  serial section of the job.
\<close>

definition live_job_ok ::
  "int \<Rightarrow> int \<Rightarrow> bool \<Rightarrow> int \<Rightarrow> int \<Rightarrow> bool \<Rightarrow> nat
   \<Rightarrow> halide_parallel_task_t list \<Rightarrow> (int \<times> int) list \<Rightarrow> int list \<Rightarrow> bool" where
  "live_job_ok min' ext ser ex act on_stack n subs calls rets =
     ((\<exists>t0. subs = [t0] \<and> serial t0 = ser
            \<and> is_int (min_t t0) \<and> is_int (extent t0) \<and> ext \<le> extent t0
            \<and> min' = int_wrap (min_t t0 + (extent t0 - ext))
            \<and> iterations calls
                = map int_wrap [min_t t0 .. min_t t0 + (extent t0 - ext) - 1])
      \<and> (\<not> ser \<longrightarrow> (\<forall>c \<in> set calls. snd c = 1))
      \<and> (\<forall>c \<in> set calls. is_int (fst c))
      \<and> 0 \<le> ext
      \<and> (on_stack \<longrightarrow> 0 < ext)
      \<and> act = int n
      \<and> (ser \<longrightarrow> act \<le> 1)
      \<and> int (length calls) = int (length rets) + (if ser then 0 else act)
      \<and> (\<not> ser \<or> act = 0 \<longrightarrow> ex = status_after 0 rets))"

definition job_ok ::
  "progress option \<Rightarrow> bool \<Rightarrow> nat \<Rightarrow> halide_parallel_task_t list \<Rightarrow> (int \<times> int) list \<Rightarrow> int list
   \<Rightarrow> bool" where
  "job_ok p on_stack n subs calls rets =
     (case p of
        None \<Rightarrow> \<not> on_stack \<and> n = 0 \<and> subs = [] \<and> calls = [] \<and> rets = []
      | Some (min', ext, ser, ex, act) \<Rightarrow>
          live_job_ok min' ext ser ex act on_stack n subs calls rets)"

definition jobs_ok ::
  "(addr \<Rightarrow> progress option) \<Rightarrow> addr list \<Rightarrow> thread list \<Rightarrow> event list \<Rightarrow> bool" where
  "jobs_ok P stack ths tr =
     (\<forall>a. job_ok (P a) (a \<in> set stack) (running_count a ths)
             (submitted a tr) (calls_of a tr) (returns_of a tr))"

text \<open>
  What holds of a thread that runs a job: the job is there; a job run in the serial
  section is serial and off the stack, \<open>iters\<close> is within its extent, and \<open>result\<close> is the
  one status that is still to be recorded in its exit status.
\<close>

definition activity_ok ::
  "(addr \<Rightarrow> progress option) \<Rightarrow> addr list \<Rightarrow> event list \<Rightarrow> activity \<Rightarrow> bool" where
  "activity_ok P stack tr act =
     (case act of
        InParallelTask a myjob \<Rightarrow> (\<exists>min' ext ex n. P a = Some (min', ext, False, ex, n))
      | InSerialTask a iters result \<Rightarrow>
          (\<exists>min' ext ex n. P a = Some (min', ext, True, ex, n)
               \<and> a \<notin> set stack \<and> 0 \<le> iters \<and> iters \<le> ext
               \<and> status_after ex [result] = status_after 0 (returns_of a tr))
      | _ \<Rightarrow> True)"

text \<open>
  What holds of a caller: the job of a \<open>par_for\<close> with a positive size was submitted
  with that \<open>min\<close> and size, and when the call has returned \<open>r\<close> the job is done and \<open>r\<close> is
  its exit status; of a \<open>parallel_tasks\<close>, the jobs before \<open>join_index\<close> are done,
  \<open>join_status\<close> is what their exit statuses have left in turn, and the call has
  returned just when all jobs are joined, with \<open>join_status\<close>.
\<close>

definition call_ok :: "(addr \<Rightarrow> progress option) \<Rightarrow> event list \<Rightarrow> thread \<Rightarrow> bool" where
  "call_ok P tr th =
     (case call th of
        Worker_thread \<Rightarrow> True
      | Par_for a min' size' \<Rightarrow>
          (0 < size' \<longrightarrow>
             (\<exists>t0. submitted a tr = [t0] \<and> min_t t0 = min' \<and> extent t0 = size'
                   \<and> \<not> serial t0)
             \<and> (\<forall>r. activity th = Returned r \<longrightarrow> dead (P a) \<and> status_of (P a) = r))
      | Parallel_tasks js \<Rightarrow>
          join_index th \<le> length js
          \<and> (\<forall>k < join_index th. dead (P (js ! k)))
          \<and> join_status th
              = status_after 0 (map (\<lambda>a. status_of (P a)) (take (join_index th) js))
          \<and> (\<forall>r. activity th = Returned r \<longrightarrow> join_index th = length js \<and> r = join_status th)
          \<and> ((\<forall>r. activity th \<noteq> Returned r) \<longrightarrow> join_index th < length js))"

definition invariant_on ::
  "(addr \<Rightarrow> progress option) \<Rightarrow> addr list \<Rightarrow> thread list \<Rightarrow> event list \<Rightarrow> bool" where
  "invariant_on P stack ths tr =
     (distinct stack \<and> jobs_ok P stack ths tr
      \<and> (\<forall>th \<in> set ths. activity_ok P stack tr (activity th) \<and> call_ok P tr th))"

definition invariant :: "system \<Rightarrow> bool" where
  "invariant s =
     invariant_on (view (shared s)) (jobs (work_queue (shared s))) (pool s) (trace s)"

text \<open>The desired number of threads is within its bounds.\<close>

definition desired_in_range :: "machine \<Rightarrow> bool" where
  "desired_in_range m =
     (1 \<le> desired_threads_working (work_queue m)
      \<and> desired_threads_working (work_queue m) \<le> MAX_THREADS)"

definition enqueued_before :: "system \<Rightarrow> bool" where
  "enqueued_before s = (\<exists>a t. Submit a t \<in> set (trace s))"

definition range_inv :: "system \<Rightarrow> bool" where
  "range_inv s = (initialized (work_queue (shared s)) \<or> enqueued_before s
                   \<longrightarrow> desired_in_range (shared s))"

text \<open>
  How one step may change the progress of the job at an address: not at all; or the job
  is new, with exit status 0 and no active worker; or the exit status has taken one more
  status \<open>r\<close> (which leaves it alone when \<open>r = 0\<close>).
\<close>

definition progress_step :: "progress option \<Rightarrow> progress option \<Rightarrow> bool" where
  "progress_step p p' =
     (p' = p
      \<or> (p = None \<and> (\<exists>mn ext ser. p' = Some (mn, ext, ser, 0, 0)))
      \<or> (\<exists>mn ext ser ex act mn' ext' act' r.
            p = Some (mn, ext, ser, ex, act)
            \<and> p' = Some (mn', ext', ser, status_after ex [r], act')))"

subsection \<open>Example inputs\<close>

definition example_env :: environment where
  "example_env =
     \<lparr>getenv_HL_NUM_THREADS = None, getenv_HL_NUMTHREADS = None,
      atoi = (\<lambda>_. 0), halide_host_cpu_count = 1, halide_spawn_thread = (\<lambda>k. nat k + 1000)\<rparr>"

definition example_task :: "int \<Rightarrow> halide_parallel_task_t" where
  "example_task e =
     \<lparr>fn = 1, closure = 0, name = 0, semaphores = [],
      min_t = 0, extent = e, min_threads = 1, serial = False, may_block = False\<rparr>"

definition example_blocking_task :: "int \<Rightarrow> halide_parallel_task_t" where
  "example_blocking_task k =
     \<lparr>fn = 1, closure = 0, name = 0, semaphores = [],
      min_t = 0, extent = 1, min_threads = k, serial = False, may_block = True\<rparr>"

definition example_consumer :: work where
  "example_consumer =
     task_job 0
       \<lparr>fn = 1, closure = 0, name = 0,
        semaphores = [\<lparr>semaphore = 1, count = 1\<rparr>, \<lparr>semaphore = 2, count = 1\<rparr>],
        min_t = 0, extent = 4, min_threads = 1, serial = False, may_block = True\<rparr>"

definition example_machine :: machine where
  "example_machine =
     \<lparr>work_queue = \<lparr>jobs = [10], threads_created = 1, desired_threads_working = 2,
                    a_team_size = 1, target_a_team_size = 1,
                    workers_sleeping = 0, owners_sleeping = 0,
                    threads = replicate 256 0, shutdown = False, initialized = True\<rparr>,
      mem = (\<lambda>_. None)(10 \<mapsto> par_for_job 0 7 0 3 0),
      sem = (\<lambda>_. 0), broadcasts = []\<rparr>"

text \<open>
  A run of \<open>halide_default_do_par_for\<close> over two iterations on one thread, of which the
  first fails with status -7, and a run of \<open>halide_default_do_parallel_tasks\<close> with one
  task of one iteration, which fails with status -3: the states are built from these.
\<close>

definition example_queue :: "addr list \<Rightarrow> work_queue_t" where
  "example_queue stack =
     \<lparr>jobs = stack, threads_created = 0, desired_threads_working = 1,
      a_team_size = 0, target_a_team_size = 0,
      workers_sleeping = 0, owners_sleeping = 0,
      threads = replicate 256 0, shutdown = False, initialized = True\<rparr>"

definition example_system :: "addr list \<Rightarrow> addr \<Rightarrow> work \<Rightarrow> thread \<Rightarrow> event list \<Rightarrow> system" where
  "example_system stack a w th tr =
     \<lparr>shared = \<lparr>work_queue = example_queue stack, mem = (\<lambda>_. None)(a \<mapsto> w),
                sem = (\<lambda>_. 0), broadcasts = [wake_a_team]\<rparr>,
      pool = [th], trace = tr\<rparr>"

definition example_job :: "int \<Rightarrow> int \<Rightarrow> int \<Rightarrow> int \<Rightarrow> work" where
  "example_job min' ext act ex =
     (par_for_job 0 7 min' ext 0)\<lparr>parent := 1, active_workers := act, exit_status := ex\<rparr>"

definition example_caller :: "activity \<Rightarrow> thread" where
  "example_caller act =
     \<lparr>call = Par_for 10 0 2, join_index = 0, join_status = 0, activity = act\<rparr>"

definition example_task_job :: "int \<Rightarrow> int \<Rightarrow> int \<Rightarrow> int \<Rightarrow> work" where
  "example_task_job min' ext act ex =
     (task_job 0 ((example_task ext)\<lparr>min_t := min'\<rparr>))
       \<lparr>parent := 2, active_workers := act, exit_status := ex\<rparr>"

definition example_joiner :: "nat \<Rightarrow> int \<Rightarrow> activity \<Rightarrow> thread" where
  "example_joiner i st act =
     \<lparr>call = Parallel_tasks [20], join_index = i, join_status = st, activity = act\<rparr>"

definition example_trace :: "event list" where
  "example_trace =
     [Submit 10 (task (example_job 0 2 0 0)), Call 10 0 1, Return 10 (- 7), Call 10 1 1,
      Return 10 0]"

definition example_failed :: system where
  "example_failed =
     example_system [10] 10 (example_job 1 1 0 (- 7)) (example_caller AtLoopHead)
       [Submit 10 (task (example_job 0 2 0 0)), Call 10 0 1, Return 10 (- 7)]"

definition example_final :: system where
  "example_final =
     example_system [] 10 (example_job 2 0 0 (- 7)) (example_caller (Returned (- 7)))
       example_trace"


text \<open>
  The same run of \<open>halide_default_do_par_for\<close> over two iterations, from \<open>INT_MAX\<close> on.
\<close>

definition example_wrapping_caller :: "activity \<Rightarrow> thread" where
  "example_wrapping_caller act =
     \<lparr>call = Par_for 10 2147483647 2, join_index = 0, join_status = 0, activity = act\<rparr>"

definition example_wrapped_final :: system where
  "example_wrapped_final =
     example_system [] 10 (example_job (- 2147483647) 0 0 (- 7))
       (example_wrapping_caller (Returned (- 7)))
       [Submit 10 (task (example_job 2147483647 2 0 0)), Call 10 2147483647 1, Return 10 (- 7),
        Call 10 (- 2147483648) 1, Return 10 0]"







section \<open>Semaphores: try\_acquire\<close>

lemma try_acquire_fail:
  "S s - n <s 0 \<Longrightarrow> halide_default_semaphore_try_acquire S s n = (S, False)"
  by (simp add: halide_default_semaphore_try_acquire_def Let_def)

lemma try_acquire_ok:
  "\<not> S s - n <s 0 \<Longrightarrow>
   halide_default_semaphore_try_acquire S s n = (S(s := S s - n), True)"
  by (simp add: halide_default_semaphore_try_acquire_def Let_def)

text \<open>
  C3. \<open>semaphore_try_acquire(n)\<close> on a semaphore of value \<open>v\<close> either returns true and leaves
  the value at exactly \<open>v - n\<close> (32-bit subtraction), which is then not negative, or returns
  false and leaves the value, and the whole store, as it was. No other semaphore changes
  in either case.
\<close>

theorem semaphore_try_acquire_exact:
  "(snd (halide_default_semaphore_try_acquire S s n)
      \<and> fst (halide_default_semaphore_try_acquire S s n) = S(s := S s - n)
      \<and> 0 \<le>s fst (halide_default_semaphore_try_acquire S s n) s)
   \<or> (\<not> snd (halide_default_semaphore_try_acquire S s n)
      \<and> fst (halide_default_semaphore_try_acquire S s n) = S)"
proof (cases "S s - n <s 0")
  case True
  then show ?thesis by (simp add: try_acquire_fail)
next
  case False
  then have "0 \<le>s S s - n" by (simp add: word_sless_alt word_sle_eq)
  with False show ?thesis by (simp add: try_acquire_ok)
qed

theorem semaphore_try_acquire_exact_witness:
  "halide_default_semaphore_try_acquire (\<lambda>_. 3) 7 2 = ((\<lambda>_. 3)(7 := 1), True)
   \<and> halide_default_semaphore_try_acquire (\<lambda>_. 3) 7 5 = (\<lambda>_. 3, False)"
proof -
  have a: "snd (halide_default_semaphore_try_acquire (\<lambda>_. 3) 7 2)"
    by (simp add: halide_default_semaphore_try_acquire_def Let_def word_sless_alt)
  have b: "\<not> snd (halide_default_semaphore_try_acquire (\<lambda>_. 3) 7 5)"
    by (simp add: halide_default_semaphore_try_acquire_def Let_def word_sless_alt)
  from a semaphore_try_acquire_exact [of "\<lambda>_. 3" 7 2]
  have "halide_default_semaphore_try_acquire (\<lambda>_. 3) 7 2 = ((\<lambda>_. 3)(7 := 3 - 2), True)"
    by (metis prod.collapse)
  moreover from b semaphore_try_acquire_exact [of "\<lambda>_. 3" 7 5]
  have "halide_default_semaphore_try_acquire (\<lambda>_. 3) 7 5 = (\<lambda>_. 3, False)"
    by (metis prod.collapse)
  ultimately show ?thesis by simp
qed

section \<open>Job readiness: make\_runnable\<close>

lemma acquired_Nil [simp]: "acquired S [] = S"
  by (simp add: acquired_def)

lemma acquired_Cons [simp]:
  "acquired S (a # xs) = acquired (S(semaphore a := S (semaphore a) - count a)) xs"
  by (simp add: acquired_def)

lemma acquired_snoc:
  "acquired S (xs @ [a]) = (acquired S xs)(semaphore a := acquired S xs (semaphore a) - count a)"
  by (simp add: acquired_def)

lemma make_runnable_done:
  "\<not> next_semaphore w < num_semaphores (task w) \<Longrightarrow>
   make_runnable S w = (S, w\<lparr>next_semaphore := 0\<rparr>, True)"
  by (simp add: make_runnable.simps)

lemma make_runnable_fail:
  "next_semaphore w < num_semaphores (task w) \<Longrightarrow>
   S (semaphore (semaphores (task w) ! next_semaphore w))
     - count (semaphores (task w) ! next_semaphore w) <s 0 \<Longrightarrow>
   make_runnable S w = (S, w, False)"
  by (subst make_runnable.simps) (simp add: try_acquire_fail)

lemma make_runnable_step:
  "next_semaphore w < num_semaphores (task w) \<Longrightarrow>
   \<not> S (semaphore (semaphores (task w) ! next_semaphore w))
     - count (semaphores (task w) ! next_semaphore w) <s 0 \<Longrightarrow>
   make_runnable S w =
     make_runnable
       (S(semaphore (semaphores (task w) ! next_semaphore w) :=
            S (semaphore (semaphores (task w) ! next_semaphore w))
              - count (semaphores (task w) ! next_semaphore w)))
       (w\<lparr>next_semaphore := next_semaphore w + 1\<rparr>)"
  by (subst make_runnable.simps) (simp add: try_acquire_ok)

text \<open>The slice of the preconditions from index i up to (not including) k.\<close>

lemma slice_step:
  "i < length xs \<Longrightarrow> i < k \<Longrightarrow>
   take (k - i) (drop i xs) = xs ! i # take (k - Suc i) (drop (Suc i) xs)"
  by (metis Cons_nth_drop_Suc Suc_diff_Suc take_Suc_Cons)

lemma make_runnable_cases:
  "make_runnable S w = (S', w', ok) \<Longrightarrow>
   (ok \<longrightarrow> w' = w\<lparr>next_semaphore := 0\<rparr>
        \<and> S' = acquired S (drop (next_semaphore w) (semaphores (task w))))
   \<and> (\<not> ok \<longrightarrow> (\<exists>k. next_semaphore w \<le> k \<and> k < num_semaphores (task w)
        \<and> w' = w\<lparr>next_semaphore := k\<rparr>
        \<and> S' = acquired S (take (k - next_semaphore w) (drop (next_semaphore w) (semaphores (task w))))
        \<and> S' (semaphore (semaphores (task w) ! k)) - count (semaphores (task w) ! k) <s 0))"
proof (induction S w arbitrary: S' w' ok rule: make_runnable.induct)
  case (1 S w)
  let ?i = "next_semaphore w"
  let ?xs = "semaphores (task w)"
  show ?case
  proof (cases "?i < num_semaphores (task w)")
    case False
    with "1.prems" show ?thesis
      by (auto simp: make_runnable_done num_semaphores_def)
  next
    case inb: True
    show ?thesis
    proof (cases "S (semaphore (?xs ! ?i)) - count (?xs ! ?i) <s 0")
      case True
      with inb "1.prems" have "S' = S" "w' = w" "\<not> ok"
        by (simp_all add: make_runnable_fail)
      with True inb show ?thesis
        by (auto intro!: exI [of _ ?i])
    next
      case False
      let ?S1 = "S(semaphore (?xs ! ?i) := S (semaphore (?xs ! ?i)) - count (?xs ! ?i))"
      let ?w1 = "w\<lparr>next_semaphore := ?i + 1\<rparr>"
      from inb False "1.prems" have rec: "make_runnable ?S1 ?w1 = (S', w', ok)"
        by (simp add: make_runnable_step)
      have acq: "halide_default_semaphore_try_acquire S (semaphore (?xs ! ?i)) (count (?xs ! ?i))
                 = (?S1, True)"
        using False by (simp add: try_acquire_ok)
      note IH0 = "1.IH" [OF inb acq [symmetric] refl rec]
      have sel: "next_semaphore ?w1 = Suc ?i" "task ?w1 = task w"
        "\<And>k. ?w1\<lparr>next_semaphore := k\<rparr> = w\<lparr>next_semaphore := k\<rparr>"
        by simp_all
      note IH = IH0 [unfolded sel]
      have dr: "drop ?i ?xs = ?xs ! ?i # drop (Suc ?i) ?xs"
        using inb by (simp add: Cons_nth_drop_Suc num_semaphores_def)
      show ?thesis
      proof (cases ok)
        case True
        with IH have "w' = w\<lparr>next_semaphore := 0\<rparr>"
          and "S' = acquired ?S1 (drop (Suc ?i) ?xs)" by blast+
        moreover have "acquired S (drop ?i ?xs) = acquired ?S1 (drop (Suc ?i) ?xs)"
          by (subst dr) (rule acquired_Cons)
        ultimately show ?thesis using True by simp
      next
        case nok: False
        with IH obtain k where k: "Suc ?i \<le> k" "k < num_semaphores (task w)"
          "w' = w\<lparr>next_semaphore := k\<rparr>"
          "S' = acquired ?S1 (take (k - Suc ?i) (drop (Suc ?i) ?xs))"
          "S' (semaphore (?xs ! k)) - count (?xs ! k) <s 0"
          by blast
        from k(1) inb have "take (k - ?i) (drop ?i ?xs) = ?xs ! ?i # take (k - Suc ?i) (drop (Suc ?i) ?xs)"
          by (intro slice_step) (simp_all add: num_semaphores_def)
        then have "acquired S (take (k - ?i) (drop ?i ?xs)) = S'"
          using k(4) by (simp only: acquired_Cons)
        with k nok show ?thesis
          by (intro conjI impI exI [of _ k]) simp_all
      qed
    qed
  qed
qed


lemma sle_iff_not_sless: "0 \<le>s (x::int32) \<longleftrightarrow> \<not> x <s 0"
  by (simp add: word_sless_alt word_sle_eq not_less)

lemma make_runnable_prefix_ok:
  "make_runnable S w = (S', w', ok) \<Longrightarrow>
   next_semaphore w \<le> j \<Longrightarrow>
   j < (if ok then num_semaphores (task w) else next_semaphore w') \<Longrightarrow>
   \<not> acquired S (take (Suc j - next_semaphore w) (drop (next_semaphore w) (semaphores (task w))))
         (semaphore (semaphores (task w) ! j)) <s 0"
proof (induction S w arbitrary: S' w' ok rule: make_runnable.induct)
  case (1 S w)
  let ?i = "next_semaphore w"
  let ?xs = "semaphores (task w)"
  show ?case
  proof (cases "?i < num_semaphores (task w)")
    case False
    with "1.prems" show ?thesis
      by (auto simp: make_runnable_done)
  next
    case inb: True
    show ?thesis
    proof (cases "S (semaphore (?xs ! ?i)) - count (?xs ! ?i) <s 0")
      case True
      with inb "1.prems" show ?thesis
        by (simp add: make_runnable_fail)
    next
      case False
      let ?S1 = "S(semaphore (?xs ! ?i) := S (semaphore (?xs ! ?i)) - count (?xs ! ?i))"
      let ?w1 = "w\<lparr>next_semaphore := ?i + 1\<rparr>"
      from inb False "1.prems" have rec: "make_runnable ?S1 ?w1 = (S', w', ok)"
        by (simp add: make_runnable_step)
      have acq: "halide_default_semaphore_try_acquire S (semaphore (?xs ! ?i)) (count (?xs ! ?i))
                 = (?S1, True)"
        using False by (simp add: try_acquire_ok)
      have sel: "next_semaphore ?w1 = Suc ?i" "task ?w1 = task w"
        by simp_all
      have sl: "take (Suc j - ?i) (drop ?i ?xs) = ?xs ! ?i # take (Suc j - Suc ?i) (drop (Suc ?i) ?xs)"
        using inb "1.prems"(2) by (intro slice_step) (simp_all add: num_semaphores_def)
      show ?thesis
      proof (cases "j = ?i")
        case True
        have "acquired S (take (Suc j - ?i) (drop ?i ?xs)) = ?S1"
          unfolding sl using True by simp
        then have "acquired S (take (Suc j - ?i) (drop ?i ?xs)) (semaphore (?xs ! j))
                   = S (semaphore (?xs ! ?i)) - count (?xs ! ?i)"
          using True by simp
        with False show ?thesis by simp
      next
        case False
        with "1.prems"(2) have "Suc ?i \<le> j" by simp
        have "j < (if ok then num_semaphores (task w) else next_semaphore w')"
          by (rule "1.prems"(3))
        from "1.IH" [OF inb acq [symmetric] refl rec, unfolded sel, OF \<open>Suc ?i \<le> j\<close> this]
        show ?thesis unfolding sl acquired_Cons .
      qed
    qed
  qed
qed

text \<open>
  C4. \<open>make_runnable\<close> tries the preconditions in order from index \<open>next_semaphore\<close> on,
  each against the store that the earlier acquisitions have left. It stops at some index
  \<open>k\<close>: every precondition before \<open>k\<close> was acquired and stays acquired in the resulting
  store (nothing is released). When it returns true, \<open>k\<close> is the number of preconditions
  and \<open>next_semaphore\<close> is back at 0; when it returns false, \<open>next_semaphore\<close> is \<open>k\<close>, the
  index of the precondition that could not be acquired.
\<close>

theorem make_runnable_in_order:
  assumes "make_runnable S w = (S', w', ok)"
  shows "\<exists>k. S' = acquired_upto S (semaphores (task w)) (next_semaphore w) k
           \<and> (\<forall>j. next_semaphore w \<le> j \<and> j < k \<longrightarrow>
                 0 \<le>s acquired_upto S (semaphores (task w)) (next_semaphore w) (Suc j)
                        (semaphore (semaphores (task w) ! j)))
           \<and> (if ok then k = num_semaphores (task w) \<and> w' = w\<lparr>next_semaphore := 0\<rparr>
               else next_semaphore w \<le> k \<and> k < num_semaphores (task w)
                    \<and> w' = w\<lparr>next_semaphore := k\<rparr>
                    \<and> S' (semaphore (semaphores (task w) ! k))
                         - count (semaphores (task w) ! k) <s 0)"
proof -
  let ?i = "next_semaphore w"
  let ?xs = "semaphores (task w)"
  note pre = make_runnable_prefix_ok [OF assms]
  show ?thesis
  proof (cases ok)
    case True
    with make_runnable_cases [OF assms]
    have "w' = w\<lparr>next_semaphore := 0\<rparr>" "S' = acquired S (drop ?i ?xs)" by blast+
    moreover have "drop ?i ?xs = take (num_semaphores (task w) - ?i) (drop ?i ?xs)"
      by (simp add: num_semaphores_def)
    ultimately have "S' = acquired_upto S ?xs ?i (num_semaphores (task w))"
      by (simp only: acquired_upto_def)
    moreover have "\<forall>j. ?i \<le> j \<and> j < num_semaphores (task w) \<longrightarrow>
        0 \<le>s acquired_upto S ?xs ?i (Suc j) (semaphore (?xs ! j))"
      using pre True unfolding sle_iff_not_sless acquired_upto_def by simp
    ultimately show ?thesis using True \<open>w' = w\<lparr>next_semaphore := 0\<rparr>\<close>
      by (intro exI [of _ "num_semaphores (task w)"]) simp
  next
    case False
    with make_runnable_cases [OF assms] obtain k where k:
      "?i \<le> k" "k < num_semaphores (task w)" "w' = w\<lparr>next_semaphore := k\<rparr>"
      "S' = acquired S (take (k - ?i) (drop ?i ?xs))"
      "S' (semaphore (?xs ! k)) - count (?xs ! k) <s 0"
      by blast
    have "\<forall>j. ?i \<le> j \<and> j < k \<longrightarrow>
        0 \<le>s acquired_upto S ?xs ?i (Suc j) (semaphore (?xs ! j))"
      using pre False k(3) unfolding sle_iff_not_sless acquired_upto_def by simp
    with k False show ?thesis
      by (intro exI [of _ k]) (simp add: acquired_upto_def)
  qed
qed

theorem make_runnable_in_order_witness:
  "make_runnable ((\<lambda>_. 0)(1 := 1)) example_consumer
     = (((\<lambda>_. 0)(1 := 1))(1 := 0), example_consumer\<lparr>next_semaphore := 1\<rparr>, False)
   \<and> ((\<lambda>_. 0)(1 := 1 :: int32))(1 := 0)
     = acquired_upto ((\<lambda>_. 0)(1 := 1)) (semaphores (task example_consumer)) 0 1
   \<and> (((\<lambda>_. 0)(1 := 1 :: int32))(1 := 0)) 2 - 1 <s 0"
proof -
  let ?S = "(\<lambda>_. 0 :: int32)(1 := 1)"
  have run: "make_runnable ?S example_consumer
      = (?S(1 := 0), example_consumer\<lparr>next_semaphore := 1\<rparr>, False)"
    by (simp add: make_runnable.simps example_consumer_def task_job_def num_semaphores_def
        try_acquire_ok try_acquire_fail word_sless_alt)
  from make_runnable_in_order [OF run, unfolded if_False] obtain k where
    k: "?S(1 := 0) = acquired_upto ?S (semaphores (task example_consumer))
          (next_semaphore example_consumer) k"
      "example_consumer\<lparr>next_semaphore := 1\<rparr> = example_consumer\<lparr>next_semaphore := k\<rparr>"
      "(?S(1 := 0)) (semaphore (semaphores (task example_consumer) ! k))
          - count (semaphores (task example_consumer) ! k) <s 0"
    by blast
  from k(2) have "next_semaphore (example_consumer\<lparr>next_semaphore := 1\<rparr>)
      = next_semaphore (example_consumer\<lparr>next_semaphore := k\<rparr>)" by (rule arg_cong)
  then have "k = 1" by simp
  with k(1,3) run show ?thesis
    by (simp add: example_consumer_def task_job_def)
qed

section \<open>Entering the calls\<close>

lemma copy_two_skip_first:
  "copy_tasks 0 [example_task 0, example_task 5] 0 0 2 [None, None] = Inr (1, [None, None])"
  by (simp add: copy_tasks.simps example_task_def)

lemma copy_two_skip_both:
  "copy_tasks 0 [example_task 0, example_task 0] 0 0 2 [None, None] = Inr (1, [None, None])"
  by (simp add: copy_tasks.simps example_task_def)

lemma enqueue_uninitialized:
  "M j = None \<Longrightarrow> enqueue_work_already_locked env p (j # js) (m\<lparr>mem := M\<rparr>)
     = Inl (UninitializedJob j)"
  by (simp add: enqueue_work_already_locked_def read_jobs_def)

text \<open>
  C1. The copy loop of \<open>halide_default_do_parallel_tasks\<close> on two tasks of which the first
  has extent 0. Skipping the first task decrements \<open>num_tasks\<close> and increments \<open>i\<close>, but
  does not move the pointer \<open>tasks\<close>: the loop ends with \<open>num_tasks = 1\<close> and nothing
  written into \<open>jobs\<close>. The second task, of extent 5, is never copied, and the call
  goes on to enqueue \<open>jobs[0]\<close>, which holds no job. When both tasks have extent 0 the
  loop ends the same way, with \<open>num_tasks = 1\<close>, so the call does not return 0 there
  either.
\<close>

theorem parallel_tasks_skip_loses_tasks:
  "copy_tasks 0 [example_task 0, example_task 5] 0 0 2 [None, None] = Inr (1, [None, None])
   \<and> halide_default_do_parallel_tasks_enter example_env 1 10 0
        [example_task 0, example_task 5] initial_machine = Inl (UninitializedJob 10)
   \<and> copy_tasks 0 [example_task 0, example_task 0] 0 0 2 [None, None] = Inr (1, [None, None])
   \<and> halide_default_do_parallel_tasks_enter example_env 1 10 0
        [example_task 0, example_task 0] initial_machine = Inl (UninitializedJob 10)"
proof -
  have st: "store_array (mem initial_machine) 10 [None, None] 10 = None"
    by (simp add: store_array_def)
  have e: "enqueue_work_already_locked example_env 1 (map (\<lambda>i. 10 + i) [0..<nat 1])
             (initial_machine\<lparr>mem := store_array (mem initial_machine) 10 [None, None]\<rparr>)
           = Inl (UninitializedJob 10)"
    using enqueue_uninitialized [of "store_array (mem initial_machine) 10 [None, None]" 10
        example_env 1 "[]" initial_machine, OF st] by simp
  show ?thesis
    using e
    by (simp add: halide_default_do_parallel_tasks_enter_def copy_two_skip_first
        copy_two_skip_both numeral_2_eq_2)
qed

lemma spawn_threads_overflow:
  "0 \<le> threads_created q \<Longrightarrow> threads_created q \<le> MAX_THREADS \<Longrightarrow>
   MAX_THREADS < min_threads' - 1 \<Longrightarrow>
   spawn_threads env min_threads' q = Inl (ThreadArrayOverflow MAX_THREADS)"
proof (induction env min_threads' q rule: spawn_threads.induct)
  case (1 env min_threads' q)
  show ?case
  proof (cases "threads_created q < MAX_THREADS")
    case True
    with "1.prems" have c: "threads_created q < desired_threads_working q - 1
        \<or> threads_created q < min_threads' - 1" by simp
    have g: "0 \<le> threads_created q \<and> threads_created q < MAX_THREADS"
      using True "1.prems" by simp
    show ?thesis
      using "1.IH" [OF c g] c g "1.prems" by (subst spawn_threads.simps) simp
  next
    case False
    with "1.prems" have "threads_created q = MAX_THREADS" by simp
    with "1.prems" show ?thesis by (subst spawn_threads.simps) simp
  qed
qed

text \<open>
  C2. On a fresh work queue, enqueueing one blocking job with \<open>min_threads = 300\<close>: the
  spawn loop has no bound at \<open>MAX_THREADS\<close>; after 256 threads it writes
  \<open>threads[256]\<close>, past the end of the array.
\<close>

theorem enqueue_overflows_thread_array:
  "enqueue_work_already_locked example_env 1 [10]
     (initial_machine\<lparr>mem := (mem initial_machine)(10 \<mapsto> task_job 0 (example_blocking_task 300))\<rparr>)
   = Inl (ThreadArrayOverflow 256)"
proof -
  let ?q = "initialize_if_needed example_env (work_queue initial_machine)"
  have "threads_created ?q = 0"
    by (simp add: initialize_if_needed_def initial_machine_def)
  then have "spawn_threads example_env 300 ?q = Inl (ThreadArrayOverflow MAX_THREADS)"
    by (intro spawn_threads_overflow) (simp_all add: MAX_THREADS_def)
  then show ?thesis
    by (simp add: enqueue_work_already_locked_def read_jobs_def task_job_def
        example_blocking_task_def MAX_THREADS_def)
qed

text \<open>
  C8. \<open>halide_default_do_par_for\<close> with \<open>size \<le> 0\<close> returns 0 at once: the work queue, the
  memory that holds the jobs, the semaphores and the log of broadcasts are all as before.
\<close>

theorem par_for_nothing_to_do:
  "size' \<le> 0 \<Longrightarrow>
   halide_default_do_par_for_enter env parent_id job user_context' f min' size' closure' m
     = Inr (Return_now 0, m)"
  by (simp add: halide_default_do_par_for_enter_def)

theorem par_for_nothing_to_do_witness:
  "halide_default_do_par_for_enter example_env 1 10 0 7 5 0 0 initial_machine
     = Inr (Return_now 0, initial_machine)
   \<and> halide_default_do_par_for_enter example_env 1 10 0 7 5 (- 3) 0 initial_machine
     = Inr (Return_now 0, initial_machine)"
  using par_for_nothing_to_do [of 0 example_env 1 10 0 7 5 0 initial_machine]
    par_for_nothing_to_do [of "- 3" example_env 1 10 0 7 5 0 initial_machine]
  by simp

section \<open>The dispatch loop: which job is selected\<close>

lemma make_runnable_same:
  assumes "make_runnable S w = (S', w', ok)"
  shows "\<exists>n. w' = w\<lparr>next_semaphore := n\<rparr>"
  using make_runnable_cases [OF assms] by (cases ok) blast+

lemma only_next_semaphore_refl [simp]: "only_next_semaphore M M"
proof -
  have "rel_option (\<lambda>w w'. \<exists>n. w' = w\<lparr>next_semaphore := n\<rparr>) (M a) (M a)" for a
  proof (cases "M a")
    case None
    then show ?thesis by simp
  next
    case (Some w)
    have "w = w\<lparr>next_semaphore := next_semaphore w\<rparr>" by simp
    then have "\<exists>n. w = w\<lparr>next_semaphore := n\<rparr>" by (rule exI)
    with Some show ?thesis by simp
  qed
  then show ?thesis by (simp add: only_next_semaphore_def)
qed

lemma only_next_semaphore_upd:
  assumes "M a = Some w"
  shows "only_next_semaphore M (M(a \<mapsto> w\<lparr>next_semaphore := n\<rparr>))"
proof -
  have "rel_option (\<lambda>w w'. \<exists>n. w' = w\<lparr>next_semaphore := n\<rparr>) (M b)
          ((M(a \<mapsto> w\<lparr>next_semaphore := n\<rparr>)) b)" for b
  proof (cases "b = a")
    case True
    with assms show ?thesis by auto
  next
    case False
    from only_next_semaphore_refl [of M]
    have "rel_option (\<lambda>w w'. \<exists>n. w' = w\<lparr>next_semaphore := n\<rparr>) (M b) (M b)"
      unfolding only_next_semaphore_def by blast
    with False show ?thesis by simp
  qed
  then show ?thesis unfolding only_next_semaphore_def by blast
qed

lemma only_next_semaphore_trans:
  assumes "only_next_semaphore M1 M2" and "only_next_semaphore M2 M3"
  shows "only_next_semaphore M1 M3"
proof -
  have "rel_option (\<lambda>w w'. \<exists>n. w' = w\<lparr>next_semaphore := n\<rparr>) (M1 a) (M3 a)" for a
  proof -
    from assms have 1: "rel_option (\<lambda>w w'. \<exists>n. w' = w\<lparr>next_semaphore := n\<rparr>) (M1 a) (M2 a)"
      and 2: "rel_option (\<lambda>w w'. \<exists>n. w' = w\<lparr>next_semaphore := n\<rparr>) (M2 a) (M3 a)"
      unfolding only_next_semaphore_def by blast+
    show ?thesis
    proof (cases "M1 a")
      case None
      with 1 have "M2 a = None" by (cases "M2 a") simp_all
      with 2 have "M3 a = None" by (cases "M3 a") simp_all
      with None show ?thesis by simp
    next
      case (Some w1)
      with 1 obtain w2 n where w2: "M2 a = Some w2" "w2 = w1\<lparr>next_semaphore := n\<rparr>"
        by (cases "M2 a") auto
      with 2 obtain w3 n' where w3: "M3 a = Some w3" "w3 = w2\<lparr>next_semaphore := n'\<rparr>"
        by (cases "M3 a") auto
      from w2 w3 have "w3 = w1\<lparr>next_semaphore := n'\<rparr>" by simp
      then have "\<exists>n. w3 = w1\<lparr>next_semaphore := n\<rparr>" by (rule exI)
      with Some w3(1) show ?thesis by simp
    qed
  qed
  then show ?thesis unfolding only_next_semaphore_def by blast
qed

lemma only_next_semaphoreD:
  assumes "only_next_semaphore M M'" and "M' a = Some w'"
  obtains w where "M a = Some w" and "w' = w\<lparr>next_semaphore := next_semaphore w'\<rparr>"
proof -
  from assms(1) have r: "rel_option (\<lambda>w w'. \<exists>n. w' = w\<lparr>next_semaphore := n\<rparr>) (M a) (M' a)"
    unfolding only_next_semaphore_def by blast
  with assms(2) obtain w n where w: "M a = Some w" "w' = w\<lparr>next_semaphore := n\<rparr>"
    by (cases "M a") auto
  then have "w' = w\<lparr>next_semaphore := next_semaphore w'\<rparr>" by simp
  with w(1) show thesis by (rule that)
qed

lemma only_next_semaphore_None:
  assumes "only_next_semaphore M M'"
  shows "M' a = None \<longleftrightarrow> M a = None"
proof -
  from assms have "rel_option (\<lambda>w w'. \<exists>n. w' = w\<lparr>next_semaphore := n\<rparr>) (M a) (M' a)"
    unfolding only_next_semaphore_def by blast
  then show ?thesis by (cases "M a"; cases "M' a") simp_all
qed

lemma may_try_next_semaphore [simp]:
  "may_try p (w\<lparr>next_semaphore := n\<rparr>) = may_try p w"
  by (simp add: may_try_def)

lemma enough_threads_next_semaphore [simp]:
  "enough_threads q (w\<lparr>next_semaphore := n\<rparr>) = enough_threads q w"
  by (simp add: enough_threads_def threads_that_could_assist_def)

lemma find_job_frame:
  "find_job p q before stack M S = Inr (r, M', S') \<Longrightarrow> only_next_semaphore M M'"
proof (induction stack arbitrary: before M S)
  case Nil
  then show ?case by simp
next
  case (Cons job rest)
  from Cons.prems obtain w where w: "M job = Some w"
    by (cases "M job") simp_all
  show ?case
  proof (cases "may_try p w \<and> enough_threads q w")
    case False
    with Cons.prems w have "find_job p q (before @ [job]) rest M S = Inr (r, M', S')"
      by auto
    then show ?thesis by (rule Cons.IH)
  next
    case True
    obtain S1 w1 ok where mr: "make_runnable S w = (S1, w1, ok)"
      by (cases "make_runnable S w") auto
    from make_runnable_same [OF mr] obtain n where w1: "w1 = w\<lparr>next_semaphore := n\<rparr>" ..
    have step: "only_next_semaphore M (M(job \<mapsto> w1))"
      unfolding w1 using w by (rule only_next_semaphore_upd)
    show ?thesis
    proof (cases ok)
      case True
      with \<open>may_try p w \<and> enough_threads q w\<close> Cons.prems w mr
      have "M' = M(job \<mapsto> w1)" by auto
      from step show ?thesis unfolding \<open>M' = M(job \<mapsto> w1)\<close> .
    next
      case False
      with \<open>may_try p w \<and> enough_threads q w\<close> Cons.prems w mr
      have "find_job p q (before @ [job]) rest (M(job \<mapsto> w1)) S1 = Inr (r, M', S')"
        by simp
      then have "only_next_semaphore (M(job \<mapsto> w1)) M'" by (rule Cons.IH)
      with step show ?thesis by (rule only_next_semaphore_trans)
    qed
  qed
qed

lemma find_job_found:
  "find_job p q before stack M S = Inr (Some (b, job, rest), M', S') \<Longrightarrow>
   b @ job # rest = before @ stack
   \<and> (\<exists>w'. M' job = Some w' \<and> may_try p w' \<and> enough_threads q w')"
proof (induction stack arbitrary: before M S)
  case Nil
  then show ?case by simp
next
  case (Cons j js)
  from Cons.prems obtain w where w: "M j = Some w"
    by (cases "M j") simp_all
  show ?case
  proof (cases "may_try p w \<and> enough_threads q w")
    case False
    with Cons.prems w
    have "find_job p q (before @ [j]) js M S = Inr (Some (b, job, rest), M', S')"
      by auto
    from Cons.IH [OF this] show ?thesis by simp
  next
    case True
    obtain S1 w1 ok where mr: "make_runnable S w = (S1, w1, ok)"
      by (cases "make_runnable S w") auto
    from make_runnable_same [OF mr] obtain n where w1: "w1 = w\<lparr>next_semaphore := n\<rparr>" ..
    show ?thesis
    proof (cases ok)
      case ok: True
      with True Cons.prems w mr
      have "b = before" "job = j" "rest = js" "M' = M(j \<mapsto> w1)" by auto
      then have "b @ job # rest = before @ j # js" "M' job = Some w1" by simp_all
      with True w1 show ?thesis by simp
    next
      case False
      with True Cons.prems w mr
      have "find_job p q (before @ [j]) js (M(j \<mapsto> w1)) S1 = Inr (Some (b, job, rest), M', S')"
        by simp
      from Cons.IH [OF this] show ?thesis by simp
    qed
  qed
qed

lemma dispatch_found:
  assumes d: "dispatch owned_job m = Inr (act, m')"
    and act: "act = InParallelTask job myjob \<or> act = InSerialTask job iters result"
  obtains p b rest M' S' w' where
    "case owned_job of None \<Rightarrow> p = None
       | Some a \<Rightarrow> (\<exists>ow. mem m a = Some ow \<and> p = Some (parent ow))"
    "find_job p (work_queue m) [] (jobs (work_queue m)) (mem m) (sem m)
       = Inr (Some (b, job, rest), M', S')"
    "M' job = Some w'"
    "(act, m') = claim_job b job rest w' (m\<lparr>mem := M', sem := S'\<rparr>)"
proof -
  obtain p where p: "(case owned_job of None \<Rightarrow> Inr None
            | Some a \<Rightarrow> (case mem m a of None \<Rightarrow> Inl (UninitializedJob a)
                         | Some ow \<Rightarrow> Inr (Some (parent ow)))) = Inr p"
    using d by (auto simp: dispatch_def split: sum.splits)
  then have p': "case owned_job of None \<Rightarrow> p = None
       | Some a \<Rightarrow> (\<exists>ow. mem m a = Some ow \<and> p = Some (parent ow))"
    by (auto split: option.splits)
  obtain r M' S' where f: "find_job p (work_queue m) [] (jobs (work_queue m)) (mem m) (sem m)
       = Inr (r, M', S')"
    using d p by (auto simp: dispatch_def split: sum.splits)
  show thesis
  proof (cases r)
    case None
    with d p f act show ?thesis
      by (auto simp: dispatch_def split: prod.splits)
  next
    case (Some x)
    obtain b j rest where x: "x = (b, j, rest)" by (cases x)
    from d p f Some x obtain w' where w': "M' j = Some w'"
      and c: "(act, m') = claim_job b j rest w' (m\<lparr>mem := M', sem := S'\<rparr>)"
      by (auto simp: dispatch_def split: option.splits)
    from c act have "j = job"
      by (auto simp: claim_job_def Let_def split: if_splits)
    with p' f Some x w' c show ?thesis by (intro that [of p b rest M' S' w']) simp_all
  qed
qed

text \<open>
  C5. Whenever a pass through the loop body ends with a job selected for execution (the
  thread goes on to run an iteration of a parallel job, or enters the serial section),
  that job was on the stack and, as it stood when the pass began, its \<open>min_threads\<close> is
  at most \<open>threads_that_could_assist\<close>: 1 + \<open>workers_sleeping\<close>, plus \<open>owners_sleeping\<close> for
  a non-blocking job, plus 1 for a blocking job whose owner is asleep. If the thread is
  an owner and the job may block, the job has the parent of the owned job; if the job is
  serial, it had no active worker.
\<close>

theorem dispatch_selects_only_eligible:
  assumes "dispatch owned_job m = Inr (act, m')"
    and "act = InParallelTask job myjob \<or> act = InSerialTask job iters result"
  shows "\<exists>w. mem m job = Some w \<and> job \<in> set (jobs (work_queue m))
     \<and> min_threads (task w)
         \<le> 1 + workers_sleeping (work_queue m)
             + (if \<not> may_block (task w) then owners_sleeping (work_queue m)
                else if owner_is_sleeping w then 1 else 0)
     \<and> (\<forall>a ow. owned_job = Some a \<and> mem m a = Some ow \<and> may_block (task w)
            \<longrightarrow> parent w = parent ow)
     \<and> (serial (task w) \<longrightarrow> active_workers w = 0)"
proof -
  from assms obtain p b rest M' S' w' where
    p: "case owned_job of None \<Rightarrow> p = None
       | Some a \<Rightarrow> (\<exists>ow. mem m a = Some ow \<and> p = Some (parent ow))"
    and f: "find_job p (work_queue m) [] (jobs (work_queue m)) (mem m) (sem m)
       = Inr (Some (b, job, rest), M', S')"
    and w': "M' job = Some w'"
    by (rule dispatch_found)
  from find_job_found [OF f] w'
  have split: "b @ job # rest = jobs (work_queue m)"
    and ok: "may_try p w'" "enough_threads (work_queue m) w'" by simp_all
  from find_job_frame [OF f] w' obtain w where
    w: "mem m job = Some w" "w' = w\<lparr>next_semaphore := next_semaphore w'\<rparr>"
    by (rule only_next_semaphoreD)
  from ok w(2) have mt: "may_try p w" and et: "enough_threads (work_queue m) w"
    by (metis may_try_next_semaphore, metis enough_threads_next_semaphore)
  have "job \<in> set (jobs (work_queue m))"
    unfolding split [symmetric] by simp
  moreover from et have "min_threads (task w)
         \<le> 1 + workers_sleeping (work_queue m)
             + (if \<not> may_block (task w) then owners_sleeping (work_queue m)
                else if owner_is_sleeping w then 1 else 0)"
    by (simp add: enough_threads_def threads_that_could_assist_def)
  moreover have "\<forall>a ow. owned_job = Some a \<and> mem m a = Some ow \<and> may_block (task w)
            \<longrightarrow> parent w = parent ow"
    using p mt by (auto simp: may_try_def)
  moreover from mt have "serial (task w) \<longrightarrow> active_workers w = 0"
    by (auto simp: may_try_def)
  ultimately show ?thesis using w(1) by blast
qed

lemma example_dispatch:
  "dispatch None example_machine
     = Inr (claim_job [] 10 [] (par_for_job 0 7 0 3 0) example_machine)"
  by (simp add: dispatch_def example_machine_def par_for_job_def may_try_def
      enough_threads_def threads_that_could_assist_def make_runnable.simps
      num_semaphores_def)

theorem dispatch_selects_only_eligible_witness:
  "dispatch None example_machine
     = Inr (InParallelTask 10 ((par_for_job 0 7 0 3 0)\<lparr>active_workers := 1\<rparr>),
            snd (claim_job [] 10 [] (par_for_job 0 7 0 3 0) example_machine))
   \<and> (\<exists>w. mem example_machine 10 = Some w \<and> 10 \<in> set (jobs (work_queue example_machine))
        \<and> min_threads (task w) \<le> 1 \<and> \<not> serial (task w))"
proof -
  have d: "dispatch None example_machine
     = Inr (InParallelTask 10 ((par_for_job 0 7 0 3 0)\<lparr>active_workers := 1\<rparr>),
            snd (claim_job [] 10 [] (par_for_job 0 7 0 3 0) example_machine))"
    unfolding example_dispatch by (simp add: claim_job_def par_for_job_def)
  from dispatch_selects_only_eligible [OF d, of 10 _ 0 0]
  obtain w where "mem example_machine 10 = Some w"
    "10 \<in> set (jobs (work_queue example_machine))"
    "min_threads (task w)
         \<le> 1 + workers_sleeping (work_queue example_machine)
             + (if \<not> may_block (task w) then owners_sleeping (work_queue example_machine)
                else if owner_is_sleeping w then 1 else 0)"
    by blast
  then have "\<exists>w. mem example_machine 10 = Some w \<and> 10 \<in> set (jobs (work_queue example_machine))
        \<and> min_threads (task w) \<le> 1 \<and> \<not> serial (task w)"
    by (auto simp: example_machine_def par_for_job_def)
  with d show ?thesis by blast
qed

section \<open>What each piece of code changes\<close>

subsection \<open>The queue under the enqueue code\<close>

lemma clamp_num_threads_range:
  "1 \<le> clamp_num_threads n \<and> clamp_num_threads n \<le> MAX_THREADS"
  by (simp add: clamp_num_threads_def MAX_THREADS_def)

lemma initialize_if_needed_fields:
  "initialized (initialize_if_needed env q)"
  "desired_threads_working (initialize_if_needed env q)
     = (if initialized q then desired_threads_working q
        else clamp_num_threads (if desired_threads_working q = 0
                                then default_desired_num_threads env
                                else desired_threads_working q))"
  "jobs (initialize_if_needed env q) = (if initialized q then jobs q else [])"
  by (simp_all add: initialize_if_needed_def)

lemma spawn_threads_fields:
  "spawn_threads env k q = Inr q' \<Longrightarrow>
   desired_threads_working q' = desired_threads_working q
   \<and> initialized q' = initialized q \<and> jobs q' = jobs q \<and> shutdown q' = shutdown q"
proof (induction env k q rule: spawn_threads.induct)
  case (1 env k q)
  show ?case
  proof (cases "threads_created q < desired_threads_working q - 1 \<or> threads_created q < k - 1")
    case False
    with "1.prems" show ?thesis by (simp add: spawn_threads.simps)
  next
    case c: True
    show ?thesis
    proof (cases "0 \<le> threads_created q \<and> threads_created q < MAX_THREADS")
      case False
      with c "1.prems" show ?thesis by (simp add: spawn_threads.simps)
    next
      case g: True
      let ?q1 = "q\<lparr>a_team_size := a_team_size q + 1,
                threads := (threads q)[nat (threads_created q) :=
                              halide_spawn_thread env (threads_created q)],
                threads_created := threads_created q + 1\<rparr>"
      from c g "1.prems" have "spawn_threads env k ?q1 = Inr q'"
        by (subst (asm) spawn_threads.simps) simp
      from "1.IH" [OF c g this] show ?thesis by simp
    qed
  qed
qed

lemma push_jobs_effect:
  "work_queue (push_jobs p js m) = (work_queue m)\<lparr>jobs := rev js @ jobs (work_queue m)\<rparr>
   \<and> sem (push_jobs p js m) = sem m
   \<and> broadcasts (push_jobs p js m) = broadcasts m
   \<and> (\<forall>a. mem (push_jobs p js m) a
          = (if a \<in> set js then map_option (\<lambda>w. w\<lparr>parent := p\<rparr>) (mem m a) else mem m a))"
proof (induction js arbitrary: m)
  case Nil
  show ?case by simp
next
  case (Cons j js)
  let ?m1 = "m\<lparr>mem := (mem m)(j := map_option (\<lambda>w. w\<lparr>parent := p\<rparr>) (mem m j)),
          work_queue := (work_queue m)\<lparr>jobs := j # jobs (work_queue m)\<rparr>\<rparr>"
  have "push_jobs p (j # js) m = push_jobs p js ?m1" by simp
  moreover note Cons.IH [of ?m1]
  ultimately show ?case by (auto simp: option.map_comp comp_def)
qed

lemma wake_threads_effect:
  "mem (wake_threads k st m) = mem m \<and> sem (wake_threads k st m) = sem m
   \<and> jobs (work_queue (wake_threads k st m)) = jobs (work_queue m)
   \<and> desired_threads_working (work_queue (wake_threads k st m))
       = desired_threads_working (work_queue m)
   \<and> initialized (work_queue (wake_threads k st m)) = initialized (work_queue m)
   \<and> threads_created (work_queue (wake_threads k st m)) = threads_created (work_queue m)"
  by (simp add: wake_threads_def Let_def halide_cond_broadcast_def)

lemma read_jobs_Inr:
  "read_jobs M js = Inr ws \<Longrightarrow> \<forall>a \<in> set js. M a \<noteq> None"
  by (auto simp: read_jobs_def find_None_iff split: option.splits)

lemma enqueue_effect:
  assumes "enqueue_work_already_locked env p js m = Inr m'"
  shows "initialized (work_queue m')"
    and "desired_threads_working (work_queue m')
         = desired_threads_working (initialize_if_needed env (work_queue m))"
    and "jobs (work_queue m') = js @ jobs (initialize_if_needed env (work_queue m))"
    and "sem m' = sem m"
    and "\<And>a. mem m' a = (if a \<in> set js then map_option (\<lambda>w. w\<lparr>parent := p\<rparr>) (mem m a)
                         else mem m a)"
    and "\<forall>a \<in> set js. mem m a \<noteq> None"
proof -
  from assms obtain ws where ws: "read_jobs (mem m) js = Inr ws"
    by (auto simp: enqueue_work_already_locked_def split: sum.splits)
  obtain k wtw st where g: "gather_work ws (0, -1, False) = (k, wtw, st)"
    by (cases "gather_work ws (0, -1, False)") auto
  from assms ws g obtain q where
    q: "spawn_threads env k (initialize_if_needed env (work_queue m)) = Inr q"
    and m': "m' = wake_threads wtw st (push_jobs p (rev js) (m\<lparr>work_queue := q\<rparr>))"
    by (auto simp: enqueue_work_already_locked_def split: sum.splits)
  note sf = spawn_threads_fields [OF q]
  note pe = push_jobs_effect [of p "rev js" "m\<lparr>work_queue := q\<rparr>"]
  note we = wake_threads_effect [of wtw st "push_jobs p (rev js) (m\<lparr>work_queue := q\<rparr>)"]
  show "initialized (work_queue m')"
    unfolding m' using we pe sf by (simp add: initialize_if_needed_fields)
  show "desired_threads_working (work_queue m')
         = desired_threads_working (initialize_if_needed env (work_queue m))"
    unfolding m' using we pe sf by simp
  show "jobs (work_queue m') = js @ jobs (initialize_if_needed env (work_queue m))"
    unfolding m' using we pe sf by simp
  show "sem m' = sem m"
    unfolding m' using we pe by simp
  show "mem m' a = (if a \<in> set js then map_option (\<lambda>w. w\<lparr>parent := p\<rparr>) (mem m a)
                         else mem m a)" for a
    unfolding m' using we pe by simp
  show "\<forall>a \<in> set js. mem m a \<noteq> None"
    using ws by (rule read_jobs_Inr)
qed

subsection \<open>What the sections of the loop body change\<close>

lemma progress_next_semaphore [simp]: "progress (w\<lparr>next_semaphore := n\<rparr>) = progress w"
  by (simp add: progress_def)

lemma progress_owner_is_sleeping [simp]: "progress (w\<lparr>owner_is_sleeping := b\<rparr>) = progress w"
  by (simp add: progress_def)

lemma progress_parent [simp]: "progress (w\<lparr>parent := p\<rparr>) = progress w"
  by (simp add: progress_def)

lemma only_next_semaphore_progress:
  assumes "only_next_semaphore M M'"
  shows "map_option progress (M' a) = map_option progress (M a)"
proof (cases "M' a")
  case None
  with only_next_semaphore_None [OF assms, of a] show ?thesis by simp
next
  case (Some w')
  with assms obtain w where "M a = Some w" "w' = w\<lparr>next_semaphore := next_semaphore w'\<rparr>"
    by (rule only_next_semaphoreD)
  with Some show ?thesis by (metis option.simps(9) progress_next_semaphore)
qed

lemma go_to_sleep_effect:
  assumes "go_to_sleep owned m = (c, m')"
  shows "jobs (work_queue m') = jobs (work_queue m)"
    and "desired_threads_working (work_queue m') = desired_threads_working (work_queue m)"
    and "initialized (work_queue m') = initialized (work_queue m)"
    and "map_option progress (mem m' a) = map_option progress (mem m a)"
  using assms
  by (auto simp: go_to_sleep_def Let_def option.map_comp comp_def split: option.splits if_splits)

lemma wake_up_effect:
  "jobs (work_queue (wake_up owned c m)) = jobs (work_queue m)"
  "desired_threads_working (work_queue (wake_up owned c m))
     = desired_threads_working (work_queue m)"
  "initialized (work_queue (wake_up owned c m)) = initialized (work_queue m)"
  "map_option progress (mem (wake_up owned c m) a) = map_option progress (mem m a)"
  by (auto simp: wake_up_def Let_def option.map_comp comp_def split: option.splits)

lemma claim_job_settings:
  assumes "claim_job b job rest w m = (act, m')"
  shows "desired_threads_working (work_queue m') = desired_threads_working (work_queue m)"
    and "initialized (work_queue m') = initialized (work_queue m)"
  using assms by (auto simp: claim_job_def Let_def split: if_splits)

lemma claim_job_serial:
  assumes "claim_job b job rest w m = (act, m')" and "serial (task w)"
  shows "act = InSerialTask job 1 0"
    and "jobs (work_queue m') = b @ rest"
    and "mem m' = (mem m)(job \<mapsto> w\<lparr>active_workers := active_workers w + 1\<rparr>)"
  using assms by (auto simp: claim_job_def Let_def)

lemma claim_job_parallel:
  assumes "claim_job b job rest w m = (act, m')" and "\<not> serial (task w)"
  shows "act = InParallelTask job (w\<lparr>active_workers := active_workers w + 1\<rparr>)"
    and "jobs (work_queue m')
           = (if int_wrap (extent (task w) - 1) = 0 then b @ rest else b @ job # rest)"
    and "mem m' = (mem m)(job \<mapsto> w\<lparr>active_workers := active_workers w + 1,
            task := (task w)\<lparr>min_t := int_wrap (min_t (task w) + 1),
                              extent := int_wrap (extent (task w) - 1)\<rparr>\<rparr>)"
  using assms by (auto simp: claim_job_def Let_def)

lemma finish_job_effect:
  "jobs (work_queue (finish_job job w r m)) = jobs (work_queue m)"
  "desired_threads_working (work_queue (finish_job job w r m))
     = desired_threads_working (work_queue m)"
  "initialized (work_queue (finish_job job w r m)) = initialized (work_queue m)"
  "mem (finish_job job w r m)
     = (mem m)(job \<mapsto> w\<lparr>exit_status := (if r \<noteq> 0 then r else exit_status w),
                           active_workers := active_workers w - 1\<rparr>)"
  by (auto simp: finish_job_def Let_def halide_cond_broadcast_def)

lemma make_runnable_progress:
  assumes "make_runnable S w = (S', w', ok)"
  shows "progress w' = progress w"
  using make_runnable_same [OF assms] by auto

lemma claim_iterations_effect:
  "claim_iterations S w iters = (S', w', iters') \<Longrightarrow>
   progress w' = progress w \<and> iters \<le> iters'
   \<and> (iters \<le> extent (task w) \<longrightarrow> iters' \<le> extent (task w))"
proof (induction S w iters arbitrary: S' w' iters' rule: claim_iterations.induct)
  case (1 S w iters)
  show ?case
  proof (cases "extent (task w) > iters")
    case False
    with "1.prems" show ?thesis by (simp add: claim_iterations.simps)
  next
    case True
    obtain S1 w1 ok where mr: "make_runnable S w = (S1, w1, ok)"
      by (cases "make_runnable S w") auto
    note p1 = make_runnable_progress [OF mr]
    show ?thesis
    proof (cases ok)
      case False
      with True mr "1.prems" have "S' = S1" "w' = w1" "iters' = iters"
        by (simp_all add: claim_iterations.simps)
      with p1 True show ?thesis by simp
    next
      case ok: True
      with True mr "1.prems" have rec: "claim_iterations S1 w1 (iters + 1) = (S', w', iters')"
        by (simp add: claim_iterations.simps)
      have "(S1, w1, ok) = make_runnable S w" using mr by simp
      from "1.IH" [OF True this refl ok [THEN eqTrueI] rec] p1 True
      show ?thesis by (auto simp: progress_def)
    qed
  qed
qed

lemma dispatch_cases [consumes 1, case_names sleep claim]:
  assumes d: "dispatch owned m = Inr (act, m')"
  obtains (sleep) c where "act = InCondWait c"
      "jobs (work_queue m') = jobs (work_queue m)"
      "\<And>a. map_option progress (mem m' a) = map_option progress (mem m a)"
  | (claim) b job rest w w' where
      "jobs (work_queue m) = b @ job # rest" "mem m job = Some w" "mem m' job = Some w'"
      "\<And>a. a \<noteq> job \<Longrightarrow> map_option progress (mem m' a) = map_option progress (mem m a)"
      "serial (task w) \<Longrightarrow>
         active_workers w = 0 \<and> act = InSerialTask job 1 0
         \<and> jobs (work_queue m') = b @ rest
         \<and> progress w' = (min_t (task w), extent (task w), True, exit_status w, 1)"
      "\<not> serial (task w) \<Longrightarrow>
         (\<exists>myjob. act = InParallelTask job myjob \<and> min_t (task myjob) = min_t (task w))
         \<and> jobs (work_queue m')
             = (if int_wrap (extent (task w) - 1) = 0 then b @ rest else b @ job # rest)
         \<and> progress w' = (int_wrap (min_t (task w) + 1), int_wrap (extent (task w) - 1),
                         False, exit_status w, active_workers w + 1)"
proof -
  obtain p where p: "(case owned of None \<Rightarrow> Inr None
            | Some a \<Rightarrow> (case mem m a of None \<Rightarrow> Inl (UninitializedJob a)
                         | Some ow \<Rightarrow> Inr (Some (parent ow)))) = Inr p"
    using d by (auto simp: dispatch_def split: sum.splits)
  obtain r M' S' where f: "find_job p (work_queue m) [] (jobs (work_queue m)) (mem m) (sem m)
       = Inr (r, M', S')"
    using d p by (auto simp: dispatch_def split: sum.splits)
  note fr = find_job_frame [OF f]
  show thesis
  proof (cases r)
    case None
    with d p f obtain c where c: "go_to_sleep owned (m\<lparr>mem := M', sem := S'\<rparr>) = (c, m')"
      and act: "act = InCondWait c"
      by (auto simp: dispatch_def split: prod.splits)
    have "map_option progress (mem m' a) = map_option progress (mem m a)" for a
      using go_to_sleep_effect(4) [OF c, of a] only_next_semaphore_progress [OF fr, of a]
      by simp
    moreover have "jobs (work_queue m') = jobs (work_queue m)"
      using go_to_sleep_effect(1) [OF c] by simp
    ultimately show ?thesis using act by (intro sleep [of c])
  next
    case (Some x)
    obtain b job rest where x: "x = (b, job, rest)" by (cases x)
    from d p f Some x obtain w' where w': "M' job = Some w'"
      and c: "claim_job b job rest w' (m\<lparr>mem := M', sem := S'\<rparr>) = (act, m')"
      by (auto simp: dispatch_def split: option.splits)
    from find_job_found [OF f [unfolded Some x]] w'
    have split: "jobs (work_queue m) = b @ job # rest" and mt: "may_try p w'" by simp_all
    from fr w' obtain w where w: "mem m job = Some w"
      "w' = w\<lparr>next_semaphore := next_semaphore w'\<rparr>"
      by (rule only_next_semaphoreD)
    from w(2) have pw: "progress w' = progress w"
      by (metis progress_next_semaphore)
    then have same: "serial (task w') = serial (task w)" "extent (task w') = extent (task w)"
      "min_t (task w') = min_t (task w)" "exit_status w' = exit_status w"
      "active_workers w' = active_workers w"
      by (simp_all add: progress_def)
    have other: "map_option progress (mem m' a) = map_option progress (mem m a)"
      if "a \<noteq> job" for a
    proof (cases "serial (task w')")
      case True
      from claim_job_serial(3) [OF c True] that
      have "mem m' a = M' a" by simp
      with only_next_semaphore_progress [OF fr, of a] show ?thesis by simp
    next
      case False
      from claim_job_parallel(3) [OF c False] that
      have "mem m' a = M' a" by simp
      with only_next_semaphore_progress [OF fr, of a] show ?thesis by simp
    qed
    show ?thesis
    proof (rule claim [of b job rest w])
      show "jobs (work_queue m) = b @ job # rest" by (rule split)
      show "mem m job = Some w" by (rule w(1))
      show "\<And>a. a \<noteq> job \<Longrightarrow> map_option progress (mem m' a) = map_option progress (mem m a)"
        by (rule other)
      show "mem m' job = Some (the (mem m' job))"
      proof (cases "serial (task w')")
        case True
        from claim_job_serial(3) [OF c True] show ?thesis by simp
      next
        case False
        from claim_job_parallel(3) [OF c False] show ?thesis by simp
      qed
      show "active_workers w = 0 \<and> act = InSerialTask job 1 0
         \<and> jobs (work_queue m') = b @ rest
         \<and> progress (the (mem m' job))
             = (min_t (task w), extent (task w), True, exit_status w, 1)"
        if "serial (task w)"
      proof -
        from that same have s: "serial (task w')" by simp
        from mt s have "active_workers w' = 0" by (simp add: may_try_def)
        with claim_job_serial [OF c s] same s show ?thesis
          by (simp add: progress_def)
      qed
      show "(\<exists>myjob. act = InParallelTask job myjob \<and> min_t (task myjob) = min_t (task w))
         \<and> jobs (work_queue m')
             = (if int_wrap (extent (task w) - 1) = 0 then b @ rest else b @ job # rest)
         \<and> progress (the (mem m' job))
             = (int_wrap (min_t (task w) + 1), int_wrap (extent (task w) - 1), False,
                exit_status w, active_workers w + 1)"
        if "\<not> serial (task w)"
      proof -
        from that same have s: "\<not> serial (task w')" by simp
        from claim_job_parallel [OF c s] same s show ?thesis
          by (simp add: progress_def)
      qed
    qed
  qed
qed

lemma dispatch_settings:
  assumes d: "dispatch owned m = Inr (act, m')"
  shows "desired_threads_working (work_queue m') = desired_threads_working (work_queue m)
         \<and> initialized (work_queue m') = initialized (work_queue m)"
proof -
  obtain p where p: "(case owned of None \<Rightarrow> Inr None
            | Some a \<Rightarrow> (case mem m a of None \<Rightarrow> Inl (UninitializedJob a)
                         | Some ow \<Rightarrow> Inr (Some (parent ow)))) = Inr p"
    using d by (auto simp: dispatch_def split: sum.splits)
  obtain r M' S' where f: "find_job p (work_queue m) [] (jobs (work_queue m)) (mem m) (sem m)
       = Inr (r, M', S')"
    using d p by (auto simp: dispatch_def split: sum.splits)
  show ?thesis
  proof (cases r)
    case None
    with d p f obtain c where c: "go_to_sleep owned (m\<lparr>mem := M', sem := S'\<rparr>) = (c, m')"
      by (auto simp: dispatch_def split: prod.splits)
    from go_to_sleep_effect(2,3) [OF c] show ?thesis by simp
  next
    case (Some x)
    obtain b job rest where x: "x = (b, job, rest)" by (cases x)
    from d p f Some x obtain w' where
      c: "claim_job b job rest w' (m\<lparr>mem := M', sem := S'\<rparr>) = (act, m')"
      by (auto simp: dispatch_def split: option.splits)
    from claim_job_settings [OF c] show ?thesis by simp
  qed
qed

lemma serial_round_settings:
  assumes "serial_round job w iters result status m = (act, called, m')"
  shows "desired_threads_working (work_queue m') = desired_threads_working (work_queue m)
         \<and> initialized (work_queue m') = initialized (work_queue m)"
  using assms
  by (auto simp: serial_round_def finish_job_effect split: prod.splits if_splits)

lemma status_after_Nil [simp]: "status_after st [] = st"
  by (simp add: status_after_def)

lemma status_after_append [simp]:
  "status_after st (xs @ ys) = status_after (status_after st xs) ys"
  by (simp add: status_after_def)

lemma status_after_single: "status_after st [r] = (if r \<noteq> 0 then r else st)"
  by (simp add: status_after_def)

lemma serial_round_cases [consumes 1, case_names run leave]:
  assumes sr: "serial_round job w iters result status m = (act, called, m')"
  obtains (run) n w'' where "result = 0" "n \<noteq> 0" "iters \<le> n"
      "iters \<le> extent (task w) \<Longrightarrow> n \<le> extent (task w)"
      "act = InSerialTask job 0 status" "called = Some (min_t (task w), n)"
      "jobs (work_queue m') = jobs (work_queue m)"
      "mem m' = (mem m)(job \<mapsto> w'')"
      "progress w'' = (int_wrap (min_t (task w) + n), int_wrap (extent (task w) - n),
                      serial (task w), exit_status w, active_workers w)"
  | (leave) w'' where "act = AtLoopHead" "called = None"
      "jobs (work_queue m')
         = (if 0 < extent (task w) then job # jobs (work_queue m) else jobs (work_queue m))"
      "mem m' = (mem m)(job \<mapsto> w'')"
      "progress w'' = (min_t (task w), extent (task w), serial (task w),
                      status_after (exit_status w) [result], active_workers w - 1)"
proof -
  obtain S' w' n where c:
    "(if result = 0 then claim_iterations (sem m) w iters else (sem m, w, 0)) = (S', w', n)"
    by (cases "if result = 0 then claim_iterations (sem m) w iters else (sem m, w, 0)") auto
  have pw: "progress w' = progress w" and le: "result = 0 \<Longrightarrow> iters \<le> n"
    and up: "result = 0 \<Longrightarrow> iters \<le> extent (task w) \<Longrightarrow> n \<le> extent (task w)"
  proof -
    show "progress w' = progress w"
    proof (cases "result = 0")
      case True
      with c claim_iterations_effect [of "sem m" w iters S' w' n] show ?thesis by simp
    next
      case False
      with c show ?thesis by simp
    qed
    show "iters \<le> n" if "result = 0"
      using that c claim_iterations_effect [of "sem m" w iters S' w' n] by simp
    show "n \<le> extent (task w)" if "result = 0" "iters \<le> extent (task w)"
      using that c claim_iterations_effect [of "sem m" w iters S' w' n] by simp
  qed
  from pw have same: "serial (task w') = serial (task w)" "extent (task w') = extent (task w)"
    "min_t (task w') = min_t (task w)" "exit_status w' = exit_status w"
    "active_workers w' = active_workers w"
    by (simp_all add: progress_def)
  show thesis
  proof (cases "result = 0 \<and> n \<noteq> 0")
    case True
    let ?w2 = "w'\<lparr>task := (task w')\<lparr>min_t := int_wrap (min_t (task w') + n),
                                       extent := int_wrap (extent (task w') - n)\<rparr>\<rparr>"
    from sr c True have r: "act = InSerialTask job 0 status"
      "called = Some (min_t (task w'), n)"
      "m' = m\<lparr>sem := S', mem := (mem m)(job \<mapsto> ?w2)\<rparr>"
      by (simp_all add: serial_round_def)
    show ?thesis
    proof (rule run [of n ?w2])
      show "result = 0" "n \<noteq> 0" using True by simp_all
      show "iters \<le> n" using le True by simp
      show "iters \<le> extent (task w) \<Longrightarrow> n \<le> extent (task w)" using up True by simp
      show "act = InSerialTask job 0 status" by (rule r(1))
      show "called = Some (min_t (task w), n)" using r(2) same by simp
      show "jobs (work_queue m') = jobs (work_queue m)" using r(3) by simp
      show "mem m' = (mem m)(job \<mapsto> ?w2)" using r(3) by simp
      show "progress ?w2 = (int_wrap (min_t (task w) + n), int_wrap (extent (task w) - n),
                      serial (task w), exit_status w, active_workers w)"
        using same by (simp add: progress_def)
    qed
  next
    case False
    let ?m1 = "m\<lparr>sem := S',
                  work_queue := (if extent (task w') > 0
                                 then (work_queue m)\<lparr>jobs := job # jobs (work_queue m)\<rparr>
                                 else work_queue m)\<rparr>"
    let ?w2 = "w'\<lparr>exit_status := (if result \<noteq> 0 then result else exit_status w'),
                           active_workers := active_workers w' - 1\<rparr>"
    from sr c False have r: "act = AtLoopHead" "called = None"
      "m' = finish_job job w' result ?m1"
      by (auto simp: serial_round_def)
    show ?thesis
    proof (rule leave [of ?w2])
      show "act = AtLoopHead" "called = None" by (rule r)+
      show "jobs (work_queue m')
         = (if 0 < extent (task w) then job # jobs (work_queue m) else jobs (work_queue m))"
        unfolding r(3) finish_job_effect using same by simp
      show "mem m' = (mem m)(job \<mapsto> ?w2)"
        unfolding r(3) finish_job_effect by simp
      show "progress ?w2 = (min_t (task w), extent (task w), serial (task w),
                      status_after (exit_status w) [result], active_workers w - 1)"
        using same by (simp add: progress_def status_after_single)
    qed
  qed
qed

subsection \<open>The desired number of threads\<close>

lemma Submit_in_append:
  "(\<exists>a t. Submit a t \<in> set (xs @ ys))
     \<longleftrightarrow> (\<exists>a t. Submit a t \<in> set xs) \<or> (\<exists>a t. Submit a t \<in> set ys)"
  by auto

lemma enter_par_for_range:
  assumes "halide_default_do_par_for_enter env p job uc f mn sz cl m = Inr (e, m')"
    and "initialized (work_queue m) \<longrightarrow> desired_in_range m"
  shows "(e = Return_now 0 \<and> m' = m) \<or> (desired_in_range m' \<and> initialized (work_queue m'))"
proof (cases "sz \<le> 0")
  case True
  with assms(1) show ?thesis by (simp add: halide_default_do_par_for_enter_def)
next
  case False
  let ?m1 = "m\<lparr>mem := (mem m)(job \<mapsto> par_for_job uc f mn sz cl)\<rparr>"
  from False assms(1) have en: "enqueue_work_already_locked env p [job] ?m1 = Inr m'"
    by (auto simp: halide_default_do_par_for_enter_def split: sum.splits)
  from enqueue_effect(1,2) [OF en] assms(2) clamp_num_threads_range
  show ?thesis
    by (auto simp: desired_in_range_def initialize_if_needed_fields)
qed

lemma enter_parallel_tasks_range:
  assumes "halide_default_do_parallel_tasks_enter env p base uc tasks m = Inr (e, m')"
    and "initialized (work_queue m) \<longrightarrow> desired_in_range m"
  shows "(e = Return_now 0 \<and> m' = m) \<or> (desired_in_range m' \<and> initialized (work_queue m'))"
proof -
  from assms(1) obtain n js where
    c: "copy_tasks uc tasks 0 0 (int (length tasks)) (replicate (length tasks) None) = Inr (n, js)"
    by (auto simp: halide_default_do_parallel_tasks_enter_def split: sum.splits)
  show ?thesis
  proof (cases "n = 0")
    case True
    with assms(1) c show ?thesis by (simp add: halide_default_do_parallel_tasks_enter_def)
  next
    case False
    with assms(1) c have en: "enqueue_work_already_locked env p
        (map (\<lambda>i. base + i) [0..<nat n]) (m\<lparr>mem := store_array (mem m) base js\<rparr>) = Inr m'"
      by (auto simp: halide_default_do_parallel_tasks_enter_def split: sum.splits)
    from enqueue_effect(1,2) [OF en] assms(2) clamp_num_threads_range
    show ?thesis
      by (auto simp: desired_in_range_def initialize_if_needed_fields)
  qed
qed

lemma submissions_Return_now [simp]: "submissions M (Return_now r) = []"
  by (simp add: submissions_def)

lemma step_range_inv:
  assumes "step s s'" and "range_inv s"
  shows "range_inv s'"
  using assms
proof (cases rule: step.cases)
  case (call_par_for job env parent_id user_context' f min' size' closure' e m')
  from enter_par_for_range [OF call_par_for(3)] assms(2)
  have "(e = Return_now 0 \<and> m' = shared s) \<or> (desired_in_range m' \<and> initialized (work_queue m'))"
    by (simp add: range_inv_def)
  then show ?thesis
  proof
    assume "e = Return_now 0 \<and> m' = shared s"
    with assms(2) show ?thesis unfolding call_par_for(1)
      by (simp add: range_inv_def enqueued_before_def)
  next
    assume "desired_in_range m' \<and> initialized (work_queue m')"
    then show ?thesis unfolding call_par_for(1) by (simp add: range_inv_def)
  qed
next
  case (call_parallel_tasks tasks jobs_base env parent_id user_context' e m')
  from enter_parallel_tasks_range [OF call_parallel_tasks(3)] assms(2)
  have "(e = Return_now 0 \<and> m' = shared s) \<or> (desired_in_range m' \<and> initialized (work_queue m'))"
    by (simp add: range_inv_def)
  then show ?thesis
  proof
    assume "e = Return_now 0 \<and> m' = shared s"
    with assms(2) show ?thesis unfolding call_parallel_tasks(1)
      by (simp add: range_inv_def enqueued_before_def)
  next
    assume "desired_in_range m' \<and> initialized (work_queue m')"
    then show ?thesis unfolding call_parallel_tasks(1) by (simp add: range_inv_def)
  qed
next
  case (leave t th)
  with assms(2) show ?thesis by (simp add: range_inv_def enqueued_before_def)
next
  case (pass t th act m')
  have "\<not> (\<exists>a t. Submit a t \<in> set (case act of
            InParallelTask job myjob \<Rightarrow> [Call job (min_t (task myjob)) 1] | _ \<Rightarrow> []))"
    by (cases act) simp_all
  with dispatch_settings [OF pass(6)] assms(2) show ?thesis unfolding pass(1)
    by (simp add: range_inv_def enqueued_before_def desired_in_range_def Submit_in_append
        del: set_append)
next
  case (wake t th c)
  with assms(2) show ?thesis
    by (simp add: range_inv_def enqueued_before_def desired_in_range_def wake_up_effect)
next
  case (task_returns t th job myjob w result)
  with assms(2) show ?thesis
    by (simp add: range_inv_def enqueued_before_def desired_in_range_def finish_job_effect)
next
  case (serial t th job iters result w status act called m')
  have "\<not> (\<exists>a t. Submit a t \<in> set (case called of
            Some (min', n) \<Rightarrow> [Call job min' n, Return job status] | None \<Rightarrow> []))"
    by (cases called) auto
  with serial_round_settings [OF serial(6)] assms(2) show ?thesis unfolding serial(1)
    by (simp add: range_inv_def enqueued_before_def desired_in_range_def Submit_in_append
        del: set_append)
next
  case (set_num_threads env n old m')
  then have "desired_in_range m'"
    using clamp_num_threads_range
    by (auto simp: halide_set_num_threads_def Let_def desired_in_range_def)
  then show ?thesis unfolding set_num_threads(1) by (simp add: range_inv_def)
next
  case (semaphore_init sema n S' r)
  with assms(2) show ?thesis
    by (simp add: range_inv_def enqueued_before_def desired_in_range_def)
next
  case (semaphore_release sema n r m')
  with assms(2) show ?thesis
    by (auto simp: range_inv_def enqueued_before_def desired_in_range_def
        halide_default_semaphore_release_def Let_def halide_cond_broadcast_def split: if_splits)
next
  case (semaphore_try_acquire sema n S' ok)
  with assms(2) show ?thesis
    by (simp add: range_inv_def enqueued_before_def desired_in_range_def)
next
  case shutdown_begins
  with assms(2) show ?thesis
    by (simp add: range_inv_def enqueued_before_def desired_in_range_def shutdown_begin_def
        halide_cond_broadcast_def)
next
  case shutdown_ends
  with assms(2) show ?thesis
    by (simp add: range_inv_def enqueued_before_def desired_in_range_def shutdown_end_def)
qed

section \<open>The invariant of the system\<close>

subsection \<open>Counting the threads that run a job\<close>

lemma running_count_append [simp]:
  "running_count a (xs @ ys) = running_count a xs + running_count a ys"
  by (simp add: running_count_def)

lemma running_count_Nil [simp]: "running_count a [] = 0"
  by (simp add: running_count_def)

lemma running_count_Cons:
  "running_count a (x # xs) = (if runs a (activity x) then 1 else 0) + running_count a xs"
  by (simp add: running_count_def)

lemma running_count_update:
  "t < length ths \<Longrightarrow>
   int (running_count a (ths[t := th']))
     = int (running_count a ths) - (if runs a (activity (ths ! t)) then 1 else 0)
         + (if runs a (activity th') then 1 else 0)"
proof (induction ths arbitrary: t)
  case Nil
  then show ?case by simp
next
  case (Cons x xs)
  show ?case
  proof (cases t)
    case 0
    then show ?thesis by (simp add: running_count_Cons)
  next
    case (Suc k)
    with Cons.prems have "k < length xs" by simp
    from Cons.IH [OF this] Suc show ?thesis by (simp add: running_count_Cons)
  qed
qed

lemma running_count_pos:
  "t < length ths \<Longrightarrow> runs a (activity (ths ! t)) \<Longrightarrow> 0 < running_count a ths"
  unfolding running_count_def
  by (metis filter_empty_conv length_greater_0_conv nth_mem)

lemma running_count_two:
  assumes "t < length ths" "t' < length ths" "t \<noteq> t'"
    and "runs a (activity (ths ! t))" "runs a (activity (ths ! t'))"
  shows "2 \<le> running_count a ths"
proof -
  let ?th = "\<lparr>call = Worker_thread, join_index = 0, join_status = 0, activity = AtLoopHead\<rparr>"
  from running_count_update [OF assms(1), of a ?th] assms(4)
  have 1: "int (running_count a (ths[t := ?th])) = int (running_count a ths) - 1" by simp
  from assms have "runs a (activity ((ths[t := ?th]) ! t'))" "t' < length (ths[t := ?th])"
    by simp_all
  then have "0 < running_count a (ths[t := ?th])" by (intro running_count_pos)
  with 1 show ?thesis by linarith
qed

lemma running_count_replicate_idle [simp]:
  "\<not> runs a (activity th) \<Longrightarrow> running_count a (replicate n th) = 0"
  by (simp add: running_count_def)

subsection \<open>Reading the history\<close>

lemma submitted_append [simp]: "submitted a (xs @ ys) = submitted a xs @ submitted a ys"
  by (induction a xs rule: submitted.induct) simp_all

lemma calls_of_append [simp]: "calls_of a (xs @ ys) = calls_of a xs @ calls_of a ys"
  by (induction a xs rule: calls_of.induct) simp_all

lemma returns_of_append [simp]: "returns_of a (xs @ ys) = returns_of a xs @ returns_of a ys"
  by (induction a xs rule: returns_of.induct) simp_all

lemma iterations_Nil [simp]: "iterations [] = []"
  by (simp add: iterations_def)

lemma iterations_append [simp]: "iterations (xs @ ys) = iterations xs @ iterations ys"
  by (simp add: iterations_def)

lemma iterations_single [simp]:
  "iterations [(m, n)] = map (\<lambda>k. int_wrap (m + k)) [0 .. n - 1]"
  by (simp add: iterations_def)

lemma upto_extend:
  "lo \<le> mid \<Longrightarrow> 0 \<le> n \<Longrightarrow> [lo .. mid - 1] @ [mid .. mid + n - 1] = [lo .. mid + n - 1]"
  using upto_split1 [of lo mid "mid + n - 1"]
  by (cases "n = 0") (simp_all add: upto_rec1)

subsection \<open>Arithmetic in the type int\<close>

lemma is_int_wrap [simp]: "is_int (int_wrap x)"
  by (simp add: int_wrap_def is_int_def)

lemma int_wrap_id: "is_int x \<Longrightarrow> int_wrap x = x"
  by (simp add: int_wrap_def is_int_def)

lemma int_wrap_add [simp]: "int_wrap (int_wrap a + b) = int_wrap (a + b)"
  by (simp add: int_wrap_def mod_simps ac_simps)

lemma int_wrap_eq:
  assumes "int_wrap x = int_wrap y" and "\<bar>x - y\<bar> < 4294967296"
  shows "x = y"
proof -
  from assms(1) have "(x + 2147483648) mod 4294967296 = (y + 2147483648) mod 4294967296"
    by (simp add: int_wrap_def)
  then have "(4294967296 :: int) dvd (x + 2147483648) - (y + 2147483648)"
    by (simp only: mod_eq_dvd_iff)
  moreover have "(x + 2147483648) - (y + 2147483648) = x - y" by simp
  ultimately have d: "(4294967296 :: int) dvd x - y" by (simp only:)
  show ?thesis
  proof (rule ccontr)
    assume "x \<noteq> y"
    then have "x - y \<noteq> 0" by simp
    from dvd_imp_le_int [OF this d] have "4294967296 \<le> \<bar>x - y\<bar>" by simp
    with assms(2) show False by simp
  qed
qed

lemma upto_shift: "0 \<le> n \<Longrightarrow> map (\<lambda>k. c + k) [0 .. n - 1] = [c .. c + n - 1]"
proof (induction "nat n" arbitrary: n)
  case 0
  then show ?case by simp
next
  case (Suc m)
  then have n: "0 < n" "m = nat (n - 1)" "0 \<le> n - 1" by simp_all
  from Suc(1) [OF n(2,3)] have IH: "map (\<lambda>k. c + k) [0 .. n - 1 - 1] = [c .. c + (n - 1) - 1]" .
  have 1: "[0 .. n - 1] = [0 .. n - 1 - 1] @ [n - 1]"
    using n(1) by (simp add: upto_rec2)
  have 2: "[c .. c + n - 1] = [c .. c + (n - 1) - 1] @ [c + n - 1]"
    using n(1) upto_rec2 [of c "c + n - 1"] by (simp add: algebra_simps)
  show ?case unfolding 1 2 map_append IH by simp
qed

lemma wrap_upto_extend:
  assumes "0 \<le> k" "0 \<le> n"
  shows "map int_wrap [a .. a + k - 1] @ map (\<lambda>i. int_wrap (int_wrap (a + k) + i)) [0 .. n - 1]
         = map int_wrap [a .. a + (k + n) - 1]"
proof -
  have "map (\<lambda>i. int_wrap (int_wrap (a + k) + i)) [0 .. n - 1]
      = map int_wrap (map (\<lambda>i. (a + k) + i) [0 .. n - 1])"
    by (simp add: comp_def)
  also have "\<dots> = map int_wrap [a + k .. a + k + n - 1]"
    unfolding upto_shift [OF assms(2), of "a + k"] ..
  finally have "map int_wrap [a .. a + k - 1] @ map (\<lambda>i. int_wrap (int_wrap (a + k) + i)) [0 .. n - 1]
      = map int_wrap ([a .. a + k - 1] @ [a + k .. a + k + n - 1])" by simp
  also have "[a .. a + k - 1] @ [a + k .. a + k + n - 1] = [a .. a + k + n - 1]"
    using upto_extend [of a "a + k" n] assms by simp
  finally show ?thesis by (simp add: algebra_simps)
qed

lemma distinct_wrap_upto:
  assumes "n \<le> 4294967296"
  shows "distinct (map int_wrap [a .. a + n - 1])"
proof -
  have "inj_on int_wrap (set [a .. a + n - 1])"
  proof (rule inj_onI)
    fix x y assume "x \<in> set [a .. a + n - 1]" "y \<in> set [a .. a + n - 1]"
      and e: "int_wrap x = int_wrap y"
    then have "a \<le> x" "x \<le> a + n - 1" "a \<le> y" "y \<le> a + n - 1" by simp_all
    with assms have "\<bar>x - y\<bar> < 4294967296" by linarith
    with e show "x = y" by (rule int_wrap_eq)
  qed
  then show ?thesis by (simp add: distinct_map)
qed

lemma map_wrap_id:
  assumes "is_int a" and "a + n - 1 \<le> 2147483647"
  shows "map int_wrap [a .. a + n - 1] = [a .. a + n - 1]"
proof (rule map_idI)
  fix x assume "x \<in> set [a .. a + n - 1]"
  with assms have "is_int x" by (simp add: is_int_def)
  then show "int_wrap x = x" by (rule int_wrap_id)
qed

lemma iterations_unit_calls:
  "\<forall>c \<in> set cs. snd c = 1 \<Longrightarrow> \<forall>c \<in> set cs. is_int (fst c) \<Longrightarrow>
   cs = map (\<lambda>i. (i, 1)) (iterations cs)"
proof (induction cs)
  case Nil
  show ?case by simp
next
  case (Cons c cs)
  obtain m n where c: "c = (m, n)" by (cases c)
  with Cons.prems have n: "n = 1" and m: "is_int m" by simp_all
  have "iterations (c # cs) = m # iterations cs"
    using c n int_wrap_id [OF m] by (simp add: iterations_def)
  with Cons c n show ?case by simp
qed


subsection \<open>The parts of the invariant\<close>

lemma job_ok_None [simp]:
  "job_ok None on_stack n subs calls rets
     \<longleftrightarrow> \<not> on_stack \<and> n = 0 \<and> subs = [] \<and> calls = [] \<and> rets = []"
  by (simp add: job_ok_def)

lemma job_ok_Some [simp]:
  "job_ok (Some (mn, ext, ser, ex, act)) on_stack n subs calls rets
     \<longleftrightarrow> live_job_ok mn ext ser ex act on_stack n subs calls rets"
  by (simp add: job_ok_def)

lemma idle_activity_ok:
  "\<forall>a. \<not> runs a act \<Longrightarrow> activity_ok P stack tr act"
  by (cases act) (auto simp: activity_ok_def)

lemma dead_not_on_stack:
  assumes "jobs_ok P stack ths tr" and "dead (P a)"
  shows "a \<notin> set stack" and "running_count a ths = 0"
proof -
  from assms(2) obtain mn ser ex where p: "P a = Some (mn, 0, ser, ex, 0)"
    by (auto simp: dead_def)
  from assms(1) have "job_ok (P a) (a \<in> set stack) (running_count a ths)
             (submitted a tr) (calls_of a tr) (returns_of a tr)"
    by (simp add: jobs_ok_def)
  then show "a \<notin> set stack" and "running_count a ths = 0"
    unfolding p by (auto simp: live_job_ok_def)
qed

lemma call_ok_cong:
  assumes "call_ok P tr th"
    and same: "\<And>a. dead (P a) \<Longrightarrow> P' a = P a"
    and subs: "\<And>a. submitted a tr \<noteq> [] \<Longrightarrow> submitted a tr' = submitted a tr"
  shows "call_ok P' tr' th"
proof (cases "call th")
  case Worker_thread
  then show ?thesis by (simp add: call_ok_def)
next
  case (Par_for a mn sz)
  show ?thesis
  proof (cases "0 < sz")
    case False
    with Par_for show ?thesis by (simp add: call_ok_def)
  next
    case True
    with assms(1) Par_for obtain t0 where t0: "submitted a tr = [t0]"
      "min_t t0 = mn" "extent t0 = sz" "\<not> serial t0"
      and r: "\<forall>r. activity th = Returned r \<longrightarrow> dead (P a) \<and> status_of (P a) = r"
      by (auto simp: call_ok_def)
    from t0(1) have "submitted a tr' = [t0]" using subs [of a] by simp
    moreover from r same [of a]
    have "\<forall>r. activity th = Returned r \<longrightarrow> dead (P' a) \<and> status_of (P' a) = r" by auto
    ultimately show ?thesis using t0 Par_for by (simp add: call_ok_def)
  qed
next
  case (Parallel_tasks js)
  let ?i = "join_index th"
  note * = assms(1) [unfolded call_ok_def Parallel_tasks call.case]
  from * have i: "?i \<le> length js"
    and d: "\<forall>k < ?i. dead (P (js ! k))"
    and st: "join_status th = status_after 0 (map (\<lambda>a. status_of (P a)) (take ?i js))"
    and r: "\<forall>r. activity th = Returned r \<longrightarrow> ?i = length js \<and> r = join_status th"
    and nr: "(\<forall>r. activity th \<noteq> Returned r) \<longrightarrow> ?i < length js"
    by blast+
  have eq: "P' (js ! k) = P (js ! k)" if "k < ?i" for k
    using d that same by simp
  have "\<forall>a \<in> set (take ?i js). P' a = P a"
  proof
    fix a assume "a \<in> set (take ?i js)"
    then obtain k where "k < length (take ?i js)" "take ?i js ! k = a"
      by (auto simp: in_set_conv_nth)
    with eq [of k] show "P' a = P a" by simp
  qed
  then have mp: "map (\<lambda>a. status_of (P' a)) (take ?i js)
      = map (\<lambda>a. status_of (P a)) (take ?i js)"
    by (intro map_cong) simp_all
  have d': "\<forall>k < ?i. dead (P' (js ! k))" using d eq by simp
  show ?thesis
    unfolding call_ok_def Parallel_tasks call.case mp using i d' st r nr by blast
qed

lemma call_ok_activity:
  assumes "call_ok P tr th" and "\<forall>r. activity th \<noteq> Returned r" and "\<forall>r. act \<noteq> Returned r"
  shows "call_ok P tr (th\<lparr>activity := act\<rparr>)"
  using assms by (cases "call th") (auto simp: call_ok_def)

lemma activity_ok_other:
  assumes "activity_ok P stack tr act" and "\<not> runs j act"
    and "\<And>a. a \<noteq> j \<Longrightarrow> a \<in> set stack' \<longleftrightarrow> a \<in> set stack"
    and "\<And>a. a \<noteq> j \<Longrightarrow> returns_of a tr' = returns_of a tr"
  shows "activity_ok (P(j \<mapsto> pj)) stack' tr' act"
proof (cases act)
  case (InParallelTask a myjob)
  with assms(2) have "a \<noteq> j" by auto
  with assms(1) InParallelTask show ?thesis by (simp add: activity_ok_def)
next
  case (InSerialTask a iters result)
  with assms(2) have "a \<noteq> j" by auto
  with assms(1,3,4) InSerialTask show ?thesis by (simp add: activity_ok_def)
qed (simp_all add: activity_ok_def)

lemma inv_job_step:
  assumes inv: "invariant_on P stack ths tr"
    and live: "\<not> dead (P j)"
    and t: "t < length ths"
    and old: "\<And>a. a \<noteq> j \<Longrightarrow> \<not> runs a (activity (ths ! t))"
    and oldr: "\<forall>r. activity (ths ! t) \<noteq> Returned r"
    and new: "\<And>a. a \<noteq> j \<Longrightarrow> \<not> runs a act'"
    and newr: "\<forall>r. act' \<noteq> Returned r"
    and dist: "distinct stack'"
    and stk: "\<And>a. a \<noteq> j \<Longrightarrow> a \<in> set stack' \<longleftrightarrow> a \<in> set stack"
    and subs: "\<And>a. submitted a tr' = submitted a tr"
    and calls: "\<And>a. a \<noteq> j \<Longrightarrow> calls_of a tr' = calls_of a tr"
    and rets: "\<And>a. a \<noteq> j \<Longrightarrow> returns_of a tr' = returns_of a tr"
    and j_ok: "job_ok (Some pj) (j \<in> set stack')
                 (running_count j (ths[t := (ths ! t)\<lparr>activity := act'\<rparr>]))
                 (submitted j tr') (calls_of j tr') (returns_of j tr')"
    and act_ok: "activity_ok (P(j \<mapsto> pj)) stack' tr' act'"
    and others: "\<And>t'. t' < length ths \<Longrightarrow> t' \<noteq> t \<Longrightarrow> runs j (activity (ths ! t')) \<Longrightarrow>
                   activity_ok (P(j \<mapsto> pj)) stack' tr' (activity (ths ! t'))"
  shows "invariant_on (P(j \<mapsto> pj)) stack' (ths[t := (ths ! t)\<lparr>activity := act'\<rparr>]) tr'"
proof -
  let ?P' = "P(j \<mapsto> pj)"
  let ?th' = "(ths ! t)\<lparr>activity := act'\<rparr>"
  let ?ths' = "ths[t := ?th']"
  from inv have jobs: "jobs_ok P stack ths tr"
    and thr: "\<forall>th \<in> set ths. activity_ok P stack tr (activity th) \<and> call_ok P tr th"
    by (simp_all add: invariant_on_def)
  have same: "?P' a = P a" if "dead (P a)" for a
    using that live by auto
  have "jobs_ok ?P' stack' ?ths' tr'"
    unfolding jobs_ok_def
  proof
    fix a
    show "job_ok (?P' a) (a \<in> set stack') (running_count a ?ths')
             (submitted a tr') (calls_of a tr') (returns_of a tr')"
    proof (cases "a = j")
      case True
      with j_ok show ?thesis by simp
    next
      case False
      from running_count_update [OF t, of a ?th'] old [OF False] new [OF False]
      have "running_count a ?ths' = running_count a ths" by simp
      moreover from jobs have "job_ok (P a) (a \<in> set stack) (running_count a ths)
             (submitted a tr) (calls_of a tr) (returns_of a tr)"
        by (simp add: jobs_ok_def)
      ultimately show ?thesis
        using False stk [OF False] subs [of a] calls [OF False] rets [OF False] by simp
    qed
  qed
  moreover have "activity_ok ?P' stack' tr' (activity th) \<and> call_ok ?P' tr' th"
    if "th \<in> set ?ths'" for th
  proof -
    from that obtain i where i: "i < length ths" "th = ?ths' ! i"
      by (auto simp: in_set_conv_nth)
    show ?thesis
    proof (cases "i = t")
      case True
      with i t have th: "th = ?th'" by simp
      from thr t have "call_ok P tr (ths ! t)" by simp
      then have "call_ok P tr ?th'" using oldr newr by (rule call_ok_activity)
      then have "call_ok ?P' tr' ?th'" using same subs by (rule call_ok_cong) simp_all
      with act_ok th show ?thesis by simp
    next
      case False
      with i have th: "th = ths ! i" by simp
      from thr i(1) th have a: "activity_ok P stack tr (activity th)" and c: "call_ok P tr th"
        by simp_all
      from c have "call_ok ?P' tr' th" using same subs by (rule call_ok_cong) simp_all
      moreover have "activity_ok ?P' stack' tr' (activity th)"
      proof (cases "runs j (activity th)")
        case True
        with others [OF i(1) False] th show ?thesis by simp
      next
        case False
        with a show ?thesis using stk rets by (intro activity_ok_other)
      qed
      ultimately show ?thesis by simp
    qed
  qed
  ultimately show ?thesis using dist by (simp add: invariant_on_def)
qed

lemma inv_quiet:
  assumes inv: "invariant_on P stack ths tr"
    and t: "t < length ths"
    and old: "\<And>a. \<not> runs a (activity (ths ! t))"
    and new: "\<And>a. \<not> runs a (activity th')"
    and c: "call_ok P tr th'"
  shows "invariant_on P stack (ths[t := th']) tr"
proof -
  from inv have jobs: "jobs_ok P stack ths tr"
    and thr: "\<forall>th \<in> set ths. activity_ok P stack tr (activity th) \<and> call_ok P tr th"
    and dist: "distinct stack"
    by (simp_all add: invariant_on_def)
  have "running_count a (ths[t := th']) = running_count a ths" for a
    using running_count_update [OF t, of a th'] old [of a] new [of a] by simp
  with jobs have "jobs_ok P stack (ths[t := th']) tr"
    by (simp add: jobs_ok_def)
  moreover have "activity_ok P stack tr (activity th) \<and> call_ok P tr th"
    if "th \<in> set (ths[t := th'])" for th
  proof -
    from that have "th = th' \<or> th \<in> set ths"
      using set_update_subset_insert [of ths t th'] by auto
    then show ?thesis
    proof
      assume "th = th'"
      with c new show ?thesis by (simp add: idle_activity_ok)
    next
      assume "th \<in> set ths"
      with thr show ?thesis by simp
    qed
  qed
  ultimately show ?thesis using dist by (simp add: invariant_on_def)
qed

lemma jobs_okD:
  assumes "jobs_ok P stack ths tr" and "P j = Some (mn, ext, ser, ex, act)"
  shows "live_job_ok mn ext ser ex act (j \<in> set stack) (running_count j ths)
           (submitted j tr) (calls_of j tr) (returns_of j tr)"
proof -
  from assms(1) have "job_ok (P j) (j \<in> set stack) (running_count j ths)
           (submitted j tr) (calls_of j tr) (returns_of j tr)"
    by (simp add: jobs_ok_def)
  then show ?thesis unfolding assms(2) by simp
qed

lemma inv_parts:
  assumes "invariant_on P stack ths tr"
  shows "distinct stack" and "jobs_ok P stack ths tr"
    and "\<And>t. t < length ths \<Longrightarrow> activity_ok P stack tr (activity (ths ! t))"
    and "\<And>t. t < length ths \<Longrightarrow> call_ok P tr (ths ! t)"
  using assms by (simp_all add: invariant_on_def)

lemma runs_serial_contra:
  assumes "activity_ok P stack tr act" and "runs j act" and "P j = Some (mn, ext, False, ex, n)"
  obtains myjob where "act = InParallelTask j myjob"
  using assms by (cases act) (auto simp: activity_ok_def)

lemma inv_claim_parallel:
  assumes inv: "invariant_on P stack ths tr"
    and t: "t < length ths" and at: "activity (ths ! t) = AtLoopHead"
    and stack: "stack = b @ j # rest"
    and pj: "P j = Some (mn, ext, False, ex, act)"
  shows "invariant_on (P(j \<mapsto> (int_wrap (mn + 1), int_wrap (ext - 1), False, ex, act + 1)))
           (if int_wrap (ext - 1) = 0 then b @ rest else b @ j # rest)
           (ths[t := (ths ! t)\<lparr>activity := InParallelTask j myjob\<rparr>])
           (tr @ [Call j mn 1])"
proof -
  note parts = inv_parts [OF inv]
  note live = jobs_okD [OF parts(2) pj, unfolded live_job_ok_def]
  from stack have on: "j \<in> set stack" by simp
  with live have ext: "0 < ext" by simp
  from parts(1) stack have notin: "j \<notin> set (b @ rest)" by auto
  from live obtain t0 where t0: "submitted j tr = [t0]" "serial t0 = False"
    "is_int (min_t t0)" "is_int (extent t0)" "ext \<le> extent t0"
    "mn = int_wrap (min_t t0 + (extent t0 - ext))"
    "iterations (calls_of j tr) = map int_wrap [min_t t0 .. min_t t0 + (extent t0 - ext) - 1]"
    by blast
  have w: "int_wrap (ext - 1) = ext - 1"
    using ext t0(4,5) by (intro int_wrap_id) (simp add: is_int_def)
  have mn': "int_wrap (mn + 1) = int_wrap (min_t t0 + (extent t0 - (ext - 1)))"
    unfolding t0(6) int_wrap_add by (simp add: algebra_simps)
  have it: "iterations (calls_of j (tr @ [Call j mn 1]))
      = map int_wrap [min_t t0 .. min_t t0 + (extent t0 - (ext - 1)) - 1]"
  proof -
    have "iterations (calls_of j (tr @ [Call j mn 1]))
        = map int_wrap [min_t t0 .. min_t t0 + (extent t0 - ext) - 1]
          @ map (\<lambda>i. int_wrap (int_wrap (min_t t0 + (extent t0 - ext)) + i)) [0 .. 1 - 1]"
      using t0(6,7) by simp
    also have "\<dots> = map int_wrap [min_t t0 .. min_t t0 + (extent t0 - ext + 1) - 1]"
      using t0(5) by (intro wrap_upto_extend) simp_all
    finally show ?thesis by (simp add: algebra_simps)
  qed
  show ?thesis
    unfolding w
  proof (rule inv_job_step [OF inv _ t])
    show "\<not> dead (P j)" using pj ext by (simp add: dead_def)
    show "\<And>a. a \<noteq> j \<Longrightarrow> \<not> runs a (activity (ths ! t))" by (simp add: at)
    show "\<forall>r. activity (ths ! t) \<noteq> Returned r" by (simp add: at)
    show "\<And>a. a \<noteq> j \<Longrightarrow> \<not> runs a (InParallelTask j myjob)" by simp
    show "\<forall>r. InParallelTask j myjob \<noteq> Returned r" by simp
    show "distinct (if ext - 1 = 0 then b @ rest else b @ j # rest)"
      using parts(1) stack by auto
    show "\<And>a. a \<noteq> j \<Longrightarrow>
        (a \<in> set (if ext - 1 = 0 then b @ rest else b @ j # rest)) = (a \<in> set stack)"
      using stack by auto
    show "\<And>a. submitted a (tr @ [Call j mn 1]) = submitted a tr" by simp
    show "\<And>a. a \<noteq> j \<Longrightarrow> calls_of a (tr @ [Call j mn 1]) = calls_of a tr" by simp
    show "\<And>a. a \<noteq> j \<Longrightarrow> returns_of a (tr @ [Call j mn 1]) = returns_of a tr" by simp
    show "activity_ok (P(j \<mapsto> (int_wrap (mn + 1), ext - 1, False, ex, act + 1)))
            (if ext - 1 = 0 then b @ rest else b @ j # rest) (tr @ [Call j mn 1])
            (InParallelTask j myjob)"
      by (simp add: activity_ok_def)
    show "activity_ok (P(j \<mapsto> (int_wrap (mn + 1), ext - 1, False, ex, act + 1)))
            (if ext - 1 = 0 then b @ rest else b @ j # rest) (tr @ [Call j mn 1])
            (activity (ths ! t'))"
      if "t' < length ths" "t' \<noteq> t" "runs j (activity (ths ! t'))" for t'
    proof -
      from parts(3) [OF that(1)] that(3) pj
      obtain mj where "activity (ths ! t') = InParallelTask j mj"
        by (rule runs_serial_contra)
      then show ?thesis by (simp add: activity_ok_def)
    qed
    have cnt: "int (running_count j (ths[t := (ths ! t)\<lparr>activity := InParallelTask j myjob\<rparr>]))
        = int (running_count j ths) + 1"
      using running_count_update [OF t, of j "(ths ! t)\<lparr>activity := InParallelTask j myjob\<rparr>"]
        at by simp
    have "live_job_ok (int_wrap (mn + 1)) (ext - 1) False ex (act + 1)
            (j \<in> set (if ext - 1 = 0 then b @ rest else b @ j # rest))
            (running_count j (ths[t := (ths ! t)\<lparr>activity := InParallelTask j myjob\<rparr>]))
            (submitted j (tr @ [Call j mn 1])) (calls_of j (tr @ [Call j mn 1]))
            (returns_of j (tr @ [Call j mn 1]))"
      unfolding live_job_ok_def
    proof (intro conjI)
      show "\<exists>t0. submitted j (tr @ [Call j mn 1]) = [t0] \<and> serial t0 = False
              \<and> is_int (min_t t0) \<and> is_int (extent t0) \<and> ext - 1 \<le> extent t0
              \<and> int_wrap (mn + 1) = int_wrap (min_t t0 + (extent t0 - (ext - 1)))
              \<and> iterations (calls_of j (tr @ [Call j mn 1]))
                  = map int_wrap [min_t t0 .. min_t t0 + (extent t0 - (ext - 1)) - 1]"
        using t0(1-5) mn' it by (intro exI [of _ t0]) simp
      show "\<not> False \<longrightarrow> (\<forall>c \<in> set (calls_of j (tr @ [Call j mn 1])). snd c = 1)"
        using live by simp
      show "\<forall>c \<in> set (calls_of j (tr @ [Call j mn 1])). is_int (fst c)"
        using live t0(6) by simp
      show "0 \<le> ext - 1" using ext by simp
      show "j \<in> set (if ext - 1 = 0 then b @ rest else b @ j # rest) \<longrightarrow> 0 < ext - 1"
        using notin ext by auto
      show "act + 1 = int (running_count j
              (ths[t := (ths ! t)\<lparr>activity := InParallelTask j myjob\<rparr>]))"
        using cnt live by simp
      show "False \<longrightarrow> act + 1 \<le> 1" by simp
      show "int (length (calls_of j (tr @ [Call j mn 1])))
              = int (length (returns_of j (tr @ [Call j mn 1])))
                + (if False then 0 else act + 1)"
        using live by simp
      show "\<not> False \<or> act + 1 = 0
              \<longrightarrow> ex = status_after 0 (returns_of j (tr @ [Call j mn 1]))"
        using live by simp
    qed
    then show "job_ok (Some (int_wrap (mn + 1), ext - 1, False, ex, act + 1))
            (j \<in> set (if ext - 1 = 0 then b @ rest else b @ j # rest))
            (running_count j (ths[t := (ths ! t)\<lparr>activity := InParallelTask j myjob\<rparr>]))
            (submitted j (tr @ [Call j mn 1])) (calls_of j (tr @ [Call j mn 1]))
            (returns_of j (tr @ [Call j mn 1]))"
      by simp
  qed
qed

lemma inv_claim_serial:
  assumes inv: "invariant_on P stack ths tr"
    and t: "t < length ths" and at: "activity (ths ! t) = AtLoopHead"
    and stack: "stack = b @ j # rest"
    and pj: "P j = Some (mn, ext, True, ex, 0)"
  shows "invariant_on (P(j \<mapsto> (mn, ext, True, ex, 1))) (b @ rest)
           (ths[t := (ths ! t)\<lparr>activity := InSerialTask j 1 0\<rparr>]) tr"
proof (rule inv_job_step [OF inv _ t])
  note parts = inv_parts [OF inv]
  note live = jobs_okD [OF parts(2) pj, unfolded live_job_ok_def]
  from stack have on: "j \<in> set stack" by simp
  with live have ext: "0 < ext" by simp
  from parts(1) stack have notin: "j \<notin> set (b @ rest)" by auto
  from live have n0: "running_count j ths = 0" by simp
  from live have ex: "ex = status_after 0 (returns_of j tr)" by simp
  show "\<not> dead (P j)" using pj ext by (simp add: dead_def)
  show "\<And>a. a \<noteq> j \<Longrightarrow> \<not> runs a (activity (ths ! t))" by (simp add: at)
  show "\<forall>r. activity (ths ! t) \<noteq> Returned r" by (simp add: at)
  show "\<And>a. a \<noteq> j \<Longrightarrow> \<not> runs a (InSerialTask j 1 0)" by simp
  show "\<forall>r. InSerialTask j 1 0 \<noteq> Returned r" by simp
  show "distinct (b @ rest)" using parts(1) stack by auto
  show "\<And>a. a \<noteq> j \<Longrightarrow> (a \<in> set (b @ rest)) = (a \<in> set stack)"
    using stack by auto
  show "\<And>a. submitted a tr = submitted a tr" "\<And>a. a \<noteq> j \<Longrightarrow> calls_of a tr = calls_of a tr"
    "\<And>a. a \<noteq> j \<Longrightarrow> returns_of a tr = returns_of a tr" by simp_all
  show "activity_ok (P(j \<mapsto> (mn, ext, True, ex, 1))) (b @ rest) tr (InSerialTask j 1 0)"
    using notin ext ex by (simp add: activity_ok_def status_after_single)
  show "activity_ok (P(j \<mapsto> (mn, ext, True, ex, 1))) (b @ rest) tr (activity (ths ! t'))"
    if "t' < length ths" "t' \<noteq> t" "runs j (activity (ths ! t'))" for t'
    using running_count_pos [OF that(1,3)] n0 by simp
  have cnt: "int (running_count j (ths[t := (ths ! t)\<lparr>activity := InSerialTask j 1 0\<rparr>])) = 1"
    using running_count_update [OF t, of j "(ths ! t)\<lparr>activity := InSerialTask j 1 0\<rparr>"] at n0
    by simp
  have "live_job_ok mn ext True ex 1 (j \<in> set (b @ rest))
          (running_count j (ths[t := (ths ! t)\<lparr>activity := InSerialTask j 1 0\<rparr>]))
          (submitted j tr) (calls_of j tr) (returns_of j tr)"
    unfolding live_job_ok_def using live cnt notin by simp
  then show "job_ok (Some (mn, ext, True, ex, 1)) (j \<in> set (b @ rest))
          (running_count j (ths[t := (ths ! t)\<lparr>activity := InSerialTask j 1 0\<rparr>]))
          (submitted j tr) (calls_of j tr) (returns_of j tr)"
    by simp
qed

lemma inv_task_returns:
  assumes inv: "invariant_on P stack ths tr"
    and t: "t < length ths" and at: "activity (ths ! t) = InParallelTask j myjob"
    and pj: "P j = Some (mn, ext, ser, ex, act)"
  shows "invariant_on (P(j \<mapsto> (mn, ext, ser, status_after ex [r], act - 1))) stack
           (ths[t := (ths ! t)\<lparr>activity := AtLoopHead\<rparr>]) (tr @ [Return j r])"
proof (rule inv_job_step [OF inv _ t])
  note parts = inv_parts [OF inv]
  from parts(3) [OF t] at pj have ser: "ser = False"
    by (simp add: activity_ok_def)
  note live = jobs_okD [OF parts(2) pj, unfolded live_job_ok_def ser]
  from running_count_pos [OF t, of j] at have pos: "0 < running_count j ths" by simp
  with live have act: "0 < act" by simp
  show "\<not> dead (P j)" using pj act by (simp add: dead_def)
  show "\<And>a. a \<noteq> j \<Longrightarrow> \<not> runs a (activity (ths ! t))" by (simp add: at)
  show "\<forall>r. activity (ths ! t) \<noteq> Returned r" by (simp add: at)
  show "\<And>a. a \<noteq> j \<Longrightarrow> \<not> runs a AtLoopHead" "\<forall>r. AtLoopHead \<noteq> Returned r" by simp_all
  show "distinct stack" by (rule parts(1))
  show "\<And>a. a \<noteq> j \<Longrightarrow> (a \<in> set stack) = (a \<in> set stack)" by simp
  show "\<And>a. submitted a (tr @ [Return j r]) = submitted a tr" by simp
  show "\<And>a. a \<noteq> j \<Longrightarrow> calls_of a (tr @ [Return j r]) = calls_of a tr" by simp
  show "\<And>a. a \<noteq> j \<Longrightarrow> returns_of a (tr @ [Return j r]) = returns_of a tr" by simp
  show "activity_ok (P(j \<mapsto> (mn, ext, ser, status_after ex [r], act - 1))) stack
          (tr @ [Return j r]) AtLoopHead"
    by (simp add: activity_ok_def)
  show "activity_ok (P(j \<mapsto> (mn, ext, ser, status_after ex [r], act - 1))) stack
          (tr @ [Return j r]) (activity (ths ! t'))"
    if "t' < length ths" "t' \<noteq> t" "runs j (activity (ths ! t'))" for t'
  proof -
    from parts(3) [OF that(1)] that(3) pj [unfolded ser]
    obtain mj where "activity (ths ! t') = InParallelTask j mj"
      by (rule runs_serial_contra)
    then show ?thesis by (simp add: activity_ok_def ser)
  qed
  have cnt: "int (running_count j (ths[t := (ths ! t)\<lparr>activity := AtLoopHead\<rparr>]))
      = int (running_count j ths) - 1"
    using running_count_update [OF t, of j "(ths ! t)\<lparr>activity := AtLoopHead\<rparr>"] at by simp
  have "live_job_ok mn ext False (status_after ex [r]) (act - 1) (j \<in> set stack)
          (running_count j (ths[t := (ths ! t)\<lparr>activity := AtLoopHead\<rparr>]))
          (submitted j (tr @ [Return j r])) (calls_of j (tr @ [Return j r]))
          (returns_of j (tr @ [Return j r]))"
    unfolding live_job_ok_def using live cnt by simp
  then show "job_ok (Some (mn, ext, ser, status_after ex [r], act - 1)) (j \<in> set stack)
          (running_count j (ths[t := (ths ! t)\<lparr>activity := AtLoopHead\<rparr>]))
          (submitted j (tr @ [Return j r])) (calls_of j (tr @ [Return j r]))
          (returns_of j (tr @ [Return j r]))"
    by (simp add: ser)
qed

lemma serial_runner:
  assumes inv: "invariant_on P stack ths tr"
    and t: "t < length ths" and at: "activity (ths ! t) = InSerialTask j iters result"
    and pj: "P j = Some (mn, ext, ser, ex, act)"
  shows "ser" and "act = 1" and "running_count j ths = 1" and "j \<notin> set stack"
    and "0 \<le> iters" and "iters \<le> ext"
    and "status_after ex [result] = status_after 0 (returns_of j tr)"
    and "\<And>t'. t' < length ths \<Longrightarrow> t' \<noteq> t \<Longrightarrow> \<not> runs j (activity (ths ! t'))"
proof -
  note parts = inv_parts [OF inv]
  from parts(3) [OF t] at pj show ser: "ser" and "j \<notin> set stack" and "0 \<le> iters"
    and "iters \<le> ext" and "status_after ex [result] = status_after 0 (returns_of j tr)"
    by (simp_all add: activity_ok_def)
  note live = jobs_okD [OF parts(2) pj, unfolded live_job_ok_def]
  from running_count_pos [OF t, of j] at have pos: "0 < running_count j ths" by simp
  with live ser show act: "act = 1" by simp
  with live show one: "running_count j ths = 1" by simp
  show "\<not> runs j (activity (ths ! t'))" if "t' < length ths" "t' \<noteq> t" for t'
  proof
    assume "runs j (activity (ths ! t'))"
    with running_count_two [OF t that(1) that(2) [symmetric], of j] at one
    show False by simp
  qed
qed

lemma inv_serial_run:
  assumes inv: "invariant_on P stack ths tr"
    and t: "t < length ths" and at: "activity (ths ! t) = InSerialTask j iters 0"
    and pj: "P j = Some (mn, ext, ser, ex, act)"
    and n: "n \<noteq> 0" "iters \<le> n" "iters \<le> ext \<Longrightarrow> n \<le> ext"
  shows "invariant_on (P(j \<mapsto> (int_wrap (mn + n), int_wrap (ext - n), ser, ex, act))) stack
           (ths[t := (ths ! t)\<lparr>activity := InSerialTask j 0 status\<rparr>])
           (tr @ [Call j mn n, Return j status])"
proof -
  note parts = inv_parts [OF inv]
  note sr = serial_runner [OF inv t at pj]
  note live = jobs_okD [OF parts(2) pj, unfolded live_job_ok_def]
  from sr n have n': "0 < n" "n \<le> ext" by simp_all
  from sr(7) have ex: "ex = status_after 0 (returns_of j tr)" by (simp add: status_after_single)
  let ?tr' = "tr @ [Call j mn n, Return j status]"
  let ?ths' = "ths[t := (ths ! t)\<lparr>activity := InSerialTask j 0 status\<rparr>]"
  from live obtain t0 where t0: "submitted j tr = [t0]" "serial t0 = ser"
    "is_int (min_t t0)" "is_int (extent t0)" "ext \<le> extent t0"
    "mn = int_wrap (min_t t0 + (extent t0 - ext))"
    "iterations (calls_of j tr) = map int_wrap [min_t t0 .. min_t t0 + (extent t0 - ext) - 1]"
    by blast
  have w: "int_wrap (ext - n) = ext - n"
    using n' t0(4,5) by (intro int_wrap_id) (simp add: is_int_def)
  have mn': "int_wrap (mn + n) = int_wrap (min_t t0 + (extent t0 - (ext - n)))"
    unfolding t0(6) int_wrap_add by (simp add: algebra_simps)
  have it: "iterations (calls_of j ?tr')
      = map int_wrap [min_t t0 .. min_t t0 + (extent t0 - (ext - n)) - 1]"
  proof -
    have "iterations (calls_of j ?tr')
        = map int_wrap [min_t t0 .. min_t t0 + (extent t0 - ext) - 1]
          @ map (\<lambda>i. int_wrap (int_wrap (min_t t0 + (extent t0 - ext)) + i)) [0 .. n - 1]"
      using t0(6,7) by simp
    also have "\<dots> = map int_wrap [min_t t0 .. min_t t0 + (extent t0 - ext + n) - 1]"
      using t0(5) n'(1) by (intro wrap_upto_extend) simp_all
    finally show ?thesis by (simp add: algebra_simps)
  qed
  show ?thesis
    unfolding w
  proof (rule inv_job_step [OF inv _ t])
    show "\<not> dead (P j)" using pj sr(2) by (simp add: dead_def)
    show "\<And>a. a \<noteq> j \<Longrightarrow> \<not> runs a (activity (ths ! t))" by (simp add: at)
    show "\<forall>r. activity (ths ! t) \<noteq> Returned r" by (simp add: at)
    show "\<And>a. a \<noteq> j \<Longrightarrow> \<not> runs a (InSerialTask j 0 status)"
      "\<forall>r. InSerialTask j 0 status \<noteq> Returned r" by simp_all
    show "distinct stack" by (rule parts(1))
    show "\<And>a. a \<noteq> j \<Longrightarrow> (a \<in> set stack) = (a \<in> set stack)" by simp
    show "\<And>a. submitted a ?tr' = submitted a tr" by simp
    show "\<And>a. a \<noteq> j \<Longrightarrow> calls_of a ?tr' = calls_of a tr" by simp
    show "\<And>a. a \<noteq> j \<Longrightarrow> returns_of a ?tr' = returns_of a tr" by simp
    show "activity_ok (P(j \<mapsto> (int_wrap (mn + n), ext - n, ser, ex, act))) stack ?tr'
            (InSerialTask j 0 status)"
      using sr n' ex by (simp add: activity_ok_def)
    show "activity_ok (P(j \<mapsto> (int_wrap (mn + n), ext - n, ser, ex, act))) stack ?tr'
            (activity (ths ! t'))"
      if "t' < length ths" "t' \<noteq> t" "runs j (activity (ths ! t'))" for t'
      using sr(8) [OF that(1,2)] that(3) by simp
    have cnt: "running_count j ?ths' = running_count j ths"
      using running_count_update [OF t, of j "(ths ! t)\<lparr>activity := InSerialTask j 0 status\<rparr>"]
        at by simp
    have "live_job_ok (int_wrap (mn + n)) (ext - n) ser ex act (j \<in> set stack)
            (running_count j ?ths') (submitted j ?tr') (calls_of j ?tr') (returns_of j ?tr')"
      unfolding live_job_ok_def
    proof (intro conjI)
      show "\<exists>t0. submitted j ?tr' = [t0] \<and> serial t0 = ser
              \<and> is_int (min_t t0) \<and> is_int (extent t0) \<and> ext - n \<le> extent t0
              \<and> int_wrap (mn + n) = int_wrap (min_t t0 + (extent t0 - (ext - n)))
              \<and> iterations (calls_of j ?tr')
                  = map int_wrap [min_t t0 .. min_t t0 + (extent t0 - (ext - n)) - 1]"
        using t0(1-5) mn' it n' by (intro exI [of _ t0]) simp
      show "\<not> ser \<longrightarrow> (\<forall>c \<in> set (calls_of j ?tr'). snd c = 1)" using sr(1) by simp
      show "\<forall>c \<in> set (calls_of j ?tr'). is_int (fst c)" using live t0(6) by simp
      show "0 \<le> ext - n" using n' by simp
      show "j \<in> set stack \<longrightarrow> 0 < ext - n" using sr(4) by simp
      show "act = int (running_count j ?ths')" using cnt live by simp
      show "ser \<longrightarrow> act \<le> 1" using sr(2) by simp
      show "int (length (calls_of j ?tr')) = int (length (returns_of j ?tr'))
              + (if ser then 0 else act)"
        using live sr(1) by simp
      show "\<not> ser \<or> act = 0 \<longrightarrow> ex = status_after 0 (returns_of j ?tr')"
        using sr(1,2) by simp
    qed
    then show "job_ok (Some (int_wrap (mn + n), ext - n, ser, ex, act)) (j \<in> set stack)
            (running_count j ?ths') (submitted j ?tr') (calls_of j ?tr') (returns_of j ?tr')"
      by simp
  qed
qed

lemma inv_serial_leave:
  assumes inv: "invariant_on P stack ths tr"
    and t: "t < length ths" and at: "activity (ths ! t) = InSerialTask j iters result"
    and pj: "P j = Some (mn, ext, ser, ex, act)"
  shows "invariant_on (P(j \<mapsto> (mn, ext, ser, status_after ex [result], act - 1)))
           (if 0 < ext then j # stack else stack)
           (ths[t := (ths ! t)\<lparr>activity := AtLoopHead\<rparr>]) tr"
proof (rule inv_job_step [OF inv _ t])
  note parts = inv_parts [OF inv]
  note sr = serial_runner [OF inv t at pj]
  note live = jobs_okD [OF parts(2) pj, unfolded live_job_ok_def]
  let ?ths' = "ths[t := (ths ! t)\<lparr>activity := AtLoopHead\<rparr>]"
  let ?stack' = "if 0 < ext then j # stack else stack"
  show "\<not> dead (P j)" using pj sr(2) by (simp add: dead_def)
  show "\<And>a. a \<noteq> j \<Longrightarrow> \<not> runs a (activity (ths ! t))" by (simp add: at)
  show "\<forall>r. activity (ths ! t) \<noteq> Returned r" by (simp add: at)
  show "\<And>a. a \<noteq> j \<Longrightarrow> \<not> runs a AtLoopHead" "\<forall>r. AtLoopHead \<noteq> Returned r" by simp_all
  show "distinct ?stack'" using parts(1) sr(4) by simp
  show "\<And>a. a \<noteq> j \<Longrightarrow> (a \<in> set ?stack') = (a \<in> set stack)" by simp
  show "\<And>a. submitted a tr = submitted a tr" "\<And>a. a \<noteq> j \<Longrightarrow> calls_of a tr = calls_of a tr"
    "\<And>a. a \<noteq> j \<Longrightarrow> returns_of a tr = returns_of a tr" by simp_all
  show "activity_ok (P(j \<mapsto> (mn, ext, ser, status_after ex [result], act - 1))) ?stack' tr
          AtLoopHead"
    by (simp add: activity_ok_def)
  show "activity_ok (P(j \<mapsto> (mn, ext, ser, status_after ex [result], act - 1))) ?stack' tr
          (activity (ths ! t'))"
    if "t' < length ths" "t' \<noteq> t" "runs j (activity (ths ! t'))" for t'
    using sr(8) [OF that(1,2)] that(3) by simp
  have cnt: "running_count j ?ths' = 0"
    using running_count_update [OF t, of j "(ths ! t)\<lparr>activity := AtLoopHead\<rparr>"] at sr(3)
    by simp
  have "live_job_ok mn ext ser (status_after ex [result]) (act - 1) (j \<in> set ?stack')
          (running_count j ?ths') (submitted j tr) (calls_of j tr) (returns_of j tr)"
    unfolding live_job_ok_def using live cnt sr(1,2,4,7) by auto
  then show "job_ok (Some (mn, ext, ser, status_after ex [result], act - 1)) (j \<in> set ?stack')
          (running_count j ?ths') (submitted j tr) (calls_of j tr) (returns_of j tr)"
    by simp
qed

lemma job_ok_off_stack:
  "job_ok p True n subs calls rets \<Longrightarrow> job_ok p b n subs calls rets"
  by (cases p) (auto simp: live_job_ok_def)

lemma inv_enqueue:
  assumes inv: "invariant_on P stack ths tr"
    and dist: "distinct js"
    and fresh: "\<And>a. a \<in> set js \<Longrightarrow> P a = None"
    and keep: "\<And>a. a \<notin> set js \<Longrightarrow> P' a = P a"
    and new: "\<And>a. a \<in> set js \<Longrightarrow>
        \<exists>t0. P' a = Some (min_t t0, extent t0, serial t0, 0, 0) \<and> 0 < extent t0
             \<and> is_int (min_t t0) \<and> is_int (extent t0) \<and> submitted a subs = [t0]"
    and nosub: "\<And>a. a \<notin> set js \<Longrightarrow> submitted a subs = []"
    and nocall: "\<And>a. calls_of a subs = []" "\<And>a. returns_of a subs = []"
    and stack0: "set stack0 \<subseteq> set stack" "distinct stack0"
    and news: "\<And>th. th \<in> set news \<Longrightarrow>
        (\<forall>a. \<not> runs a (activity th)) \<and> call_ok P' (tr @ subs) th"
  shows "invariant_on P' (js @ stack0) (ths @ news) (tr @ subs)"
proof -
  from inv have jobs: "jobs_ok P stack ths tr"
    and thr: "\<forall>th \<in> set ths. activity_ok P stack tr (activity th) \<and> call_ok P tr th"
    and ds: "distinct stack"
    by (simp_all add: invariant_on_def)
  have jo: "job_ok (P a) (a \<in> set stack) (running_count a ths)
             (submitted a tr) (calls_of a tr) (returns_of a tr)" for a
    using jobs by (simp add: jobs_ok_def)
  have unborn: "a \<notin> set stack \<and> running_count a ths = 0 \<and> submitted a tr = []
      \<and> calls_of a tr = [] \<and> returns_of a tr = []" if "P a = None" for a
    using jo [of a] that by simp
  have born: "P a \<noteq> None" if "submitted a tr \<noteq> []" for a
    using unborn [of a] that by blast
  have idle: "running_count a news = 0" for a
    using news by (simp add: running_count_def)
  have "distinct (js @ stack0)"
    using dist stack0 fresh unborn by auto
  moreover have "jobs_ok P' (js @ stack0) (ths @ news) (tr @ subs)"
    unfolding jobs_ok_def
  proof
    fix a
    show "job_ok (P' a) (a \<in> set (js @ stack0)) (running_count a (ths @ news))
            (submitted a (tr @ subs)) (calls_of a (tr @ subs)) (returns_of a (tr @ subs))"
    proof (cases "a \<in> set js")
      case True
      from new [OF True] obtain t0 where t0:
        "P' a = Some (min_t t0, extent t0, serial t0, 0, 0)" "0 < extent t0"
        "submitted a subs = [t0]" and ints: "is_int (min_t t0)" "is_int (extent t0)" by blast
      from unborn [OF fresh [OF True]] t0 True idle nocall ints int_wrap_id [OF ints(1)]
      show ?thesis
        by (simp add: live_job_ok_def)
    next
      case False
      have "job_ok (P a) (a \<in> set stack0) (running_count a ths)
             (submitted a tr) (calls_of a tr) (returns_of a tr)"
      proof (cases "a \<in> set stack")
        case True
        with jo [of a] show ?thesis by (auto intro: job_ok_off_stack)
      next
        case False
        with stack0 have "a \<notin> set stack0" by auto
        with jo [of a] False show ?thesis by simp
      qed
      with False keep nosub nocall idle show ?thesis by simp
    qed
  qed
  moreover have "activity_ok P' (js @ stack0) (tr @ subs) (activity th)
      \<and> call_ok P' (tr @ subs) th" if "th \<in> set (ths @ news)" for th
  proof (cases "th \<in> set ths")
    case False
    with that news [of th] show ?thesis by (simp add: idle_activity_ok)
  next
    case True
    with thr have a: "activity_ok P stack tr (activity th)" and c: "call_ok P tr th"
      by simp_all
    have "call_ok P' (tr @ subs) th"
      using c
    proof (rule call_ok_cong)
      fix a assume "dead (P a)"
      then have "P a \<noteq> None" by (auto simp: dead_def)
      with fresh have "a \<notin> set js" by auto
      then show "P' a = P a" by (rule keep)
    next
      fix a assume "submitted a tr \<noteq> []"
      then have "P a \<noteq> None" by (rule born)
      with fresh have "a \<notin> set js" by auto
      with nosub show "submitted a (tr @ subs) = submitted a tr" by simp
    qed
    moreover have "activity_ok P' (js @ stack0) (tr @ subs) (activity th)"
    proof (cases "activity th")
      case (InParallelTask a myjob)
      with a obtain mn ext ex n where p: "P a = Some (mn, ext, False, ex, n)"
        by (auto simp: activity_ok_def)
      with fresh have "a \<notin> set js" by auto
      with keep p InParallelTask show ?thesis by (simp add: activity_ok_def)
    next
      case (InSerialTask a iters result)
      with a obtain mn ext ex n where p: "P a = Some (mn, ext, True, ex, n)"
        "a \<notin> set stack" "0 \<le> iters" "iters \<le> ext"
        "status_after ex [result] = status_after 0 (returns_of a tr)"
        by (auto simp: activity_ok_def)
      with fresh have "a \<notin> set js" by auto
      moreover from p(2) stack0 have "a \<notin> set stack0" by auto
      ultimately show ?thesis using keep p InSerialTask nocall
        by (simp add: activity_ok_def)
    qed (simp_all add: activity_ok_def)
    ultimately show ?thesis by simp
  qed
  ultimately show ?thesis by (simp add: invariant_on_def)
qed

subsection \<open>Leaving the loop\<close>

lemma view_Some:
  "mem m a = Some w \<Longrightarrow> view m a = Some (progress w)"
  by (simp add: view_def)

lemma not_running_dead:
  "mem m a = Some w \<Longrightarrow> \<not> running w \<Longrightarrow> dead (view m a) \<and> status_of (view m a) = exit_status w"
  by (simp add: view_def running_def dead_def status_of_def progress_def)

lemma leave_call_ok:
  assumes c: "call_ok (view m) tr th"
    and at: "activity th = AtLoopHead"
    and lc: "loop_condition (owned_job_of th) m = Inr False"
  shows "call_ok (view m) tr (leave_loop (Option.bind (owned_job_of th) (mem m)) th)
         \<and> (\<forall>a. \<not> runs a (activity (leave_loop (Option.bind (owned_job_of th) (mem m)) th)))"
proof (cases "call th")
  case Worker_thread
  then show ?thesis by (simp add: leave_loop_def owned_job_of_def call_ok_def)
next
  case (Par_for a mn sz)
  with lc obtain w where w: "mem m a = Some w" "\<not> running w"
    by (auto simp: loop_condition_def owned_job_of_def split: option.splits)
  from Par_for w have l: "leave_loop (Option.bind (owned_job_of th) (mem m)) th
      = th\<lparr>activity := Returned (exit_status w)\<rparr>"
    by (simp add: leave_loop_def owned_job_of_def)
  from c Par_for not_running_dead [OF w] show ?thesis
    unfolding l by (auto simp: call_ok_def)
next
  case (Parallel_tasks js)
  let ?i = "join_index th"
  note * = c [unfolded call_ok_def Parallel_tasks call.case]
  from * at have i: "?i < length js" by simp
  from * have d: "\<forall>k < ?i. dead (view m (js ! k))"
    and st: "join_status th = status_after 0 (map (\<lambda>a. status_of (view m a)) (take ?i js))"
    by blast+
  from lc Parallel_tasks obtain w where w: "mem m (js ! ?i) = Some w" "\<not> running w"
    by (auto simp: loop_condition_def owned_job_of_def split: option.splits)
  note nd = not_running_dead [OF w]
  let ?st = "if exit_status w \<noteq> 0 then exit_status w else join_status th"
  have st': "?st = status_after 0 (map (\<lambda>a. status_of (view m a)) (take (Suc ?i) js))"
    using st nd i by (simp add: take_Suc_conv_app_nth status_after_single)
  have d': "\<forall>k < Suc ?i. dead (view m (js ! k))"
    using d nd by (auto simp: less_Suc_eq)
  show ?thesis
  proof (cases "Suc ?i < length js")
    case True
    with Parallel_tasks w have l: "leave_loop (Option.bind (owned_job_of th) (mem m)) th
        = th\<lparr>join_index := Suc ?i, join_status := ?st\<rparr>"
      by (simp add: leave_loop_def owned_job_of_def Let_def)
    show ?thesis
      unfolding l call_ok_def using Parallel_tasks True d' st' at by simp
  next
    case False
    with Parallel_tasks w have l: "leave_loop (Option.bind (owned_job_of th) (mem m)) th
        = th\<lparr>join_index := Suc ?i, join_status := ?st, activity := Returned ?st\<rparr>"
      by (simp add: leave_loop_def owned_job_of_def Let_def)
    from False i have "Suc ?i = length js" by simp
    then show ?thesis
      unfolding l call_ok_def using Parallel_tasks d' st' by simp
  qed
qed

subsection \<open>The jobs that a call enqueues\<close>

lemma copy_tasks_result:
  "copy_tasks uc tasks tp i n js = Inr (n', js') \<Longrightarrow> 0 \<le> i \<Longrightarrow> 0 \<le> n \<Longrightarrow>
   (\<forall>k < length js. js ! k \<noteq> None \<longrightarrow>
      (\<exists>t. js ! k = Some (task_job uc t) \<and> 0 < extent t) \<and> int k < i \<and> int k < n) \<Longrightarrow>
   length js' = length js \<and> 0 \<le> n' \<and> n' \<le> n
   \<and> (\<forall>k < length js'. js' ! k \<noteq> None \<longrightarrow>
         (\<exists>t. js' ! k = Some (task_job uc t) \<and> 0 < extent t) \<and> int k < n')"
proof (induction uc tasks tp i n js arbitrary: n' js' rule: copy_tasks.induct)
  case (1 uc tasks tp i n js)
  show ?case
  proof (cases "i < n")
    case False
    with "1.prems" show ?thesis by (simp add: copy_tasks.simps)
  next
    case lt: True
    show ?thesis
    proof (cases "tp < length tasks \<and> 0 \<le> i \<and> nat i < length js")
      case False
      with lt "1.prems"(1) show ?thesis by (simp add: copy_tasks.simps)
    next
      case g: True
      show ?thesis
      proof (cases "extent (tasks ! tp) \<le> 0")
        case skip: True
        from lt g skip "1.prems"(1)
        have rec: "copy_tasks uc tasks tp (i + 1) (n - 1) js = Inr (n', js')"
          by (subst (asm) copy_tasks.simps) simp
        have slots: "\<forall>k < length js. js ! k \<noteq> None \<longrightarrow>
            (\<exists>t. js ! k = Some (task_job uc t) \<and> 0 < extent t) \<and> int k < i + 1 \<and> int k < n - 1"
          using "1.prems"(4) lt by fastforce
        from "1.IH"(1) [OF lt g skip rec _ _ slots] "1.prems"(2) lt
        show ?thesis by simp
      next
        case copy: False
        let ?js1 = "js[nat i := Some (task_job uc (tasks ! tp))]"
        from lt g copy "1.prems"(1)
        have rec: "copy_tasks uc tasks (tp + 1) (i + 1) n ?js1 = Inr (n', js')"
          by (subst (asm) copy_tasks.simps) simp
        have slots: "\<forall>k < length ?js1. ?js1 ! k \<noteq> None \<longrightarrow>
            (\<exists>t. ?js1 ! k = Some (task_job uc t) \<and> 0 < extent t) \<and> int k < i + 1 \<and> int k < n"
        proof (intro allI impI)
          fix k assume k: "k < length ?js1" "?js1 ! k \<noteq> None"
          show "(\<exists>t. ?js1 ! k = Some (task_job uc t) \<and> 0 < extent t) \<and> int k < i + 1 \<and> int k < n"
          proof (cases "k = nat i")
            case True
            with k g copy lt show ?thesis by auto
          next
            case False
            with k "1.prems"(4) show ?thesis by fastforce
          qed
        qed
        from "1.IH"(2) [OF lt g copy rec _ "1.prems"(3) slots] "1.prems"(2)
        show ?thesis by simp
      qed
    qed
  qed
qed

lemma copy_tasks_start:
  assumes "copy_tasks uc tasks 0 0 (int (length tasks)) (replicate (length tasks) None)
             = Inr (n, js)"
  shows "length js = length tasks" and "0 \<le> n" and "nat n \<le> length tasks"
    and "\<And>k w. k < length js \<Longrightarrow> js ! k = Some w \<Longrightarrow>
           (\<exists>t. w = task_job uc t \<and> 0 < extent t) \<and> k < nat n"
proof -
  from copy_tasks_result [OF assms] have r: "length js = length (replicate (length tasks) None)
      \<and> 0 \<le> n \<and> n \<le> int (length tasks)
      \<and> (\<forall>k < length js. js ! k \<noteq> None \<longrightarrow>
            (\<exists>t. js ! k = Some (task_job uc t) \<and> 0 < extent t) \<and> int k < n)"
    by simp
  then show "length js = length tasks" and "0 \<le> n" and "nat n \<le> length tasks"
    by auto
  show "(\<exists>t. w = task_job uc t \<and> 0 < extent t) \<and> k < nat n"
    if "k < length js" "js ! k = Some w" for k w
    using r that by fastforce
qed

lemma submitted_submissions:
  "distinct js \<Longrightarrow>
   submitted a (submissions M (Join js))
     = (if a \<in> set js then (case M a of Some w \<Rightarrow> [task w] | None \<Rightarrow> []) else [])"
  by (induction js) (auto simp: submissions_def split: option.splits)

lemma calls_of_submissions [simp]: "calls_of a (submissions M e) = []"
proof (cases e)
  case (Return_now x)
  then show ?thesis by (simp add: submissions_def)
next
  case (Join js)
  have "calls_of a (concat (map (\<lambda>a. case M a of Some w \<Rightarrow> [Submit a (task w)] | None \<Rightarrow> []) js))
        = []"
    by (induction js) (auto split: option.splits)
  with Join show ?thesis by (simp add: submissions_def)
qed

lemma returns_of_submissions [simp]: "returns_of a (submissions M e) = []"
proof (cases e)
  case (Return_now x)
  then show ?thesis by (simp add: submissions_def)
next
  case (Join js)
  have "returns_of a (concat (map (\<lambda>a. case M a of Some w \<Rightarrow> [Submit a (task w)] | None \<Rightarrow> []) js))
        = []"
    by (induction js) (auto split: option.splits)
  with Join show ?thesis by (simp add: submissions_def)
qed

lemma int_arguments_append [simp]:
  "int_arguments (xs @ ys) \<longleftrightarrow> int_arguments xs \<and> int_arguments ys"
  by (induction xs rule: int_arguments.induct) simp_all

lemma int_arguments_submissions:
  assumes "int_arguments (submissions M (Join js))" and "a \<in> set js" and "M a = Some w"
  shows "is_int (min_t (task w))" and "is_int (extent (task w))"
proof -
  have "int_arguments (concat (map (\<lambda>a. case M a of Some w \<Rightarrow> [Submit a (task w)] | None \<Rightarrow> [])
            js)) \<Longrightarrow> a \<in> set js \<Longrightarrow> is_int (min_t (task w)) \<and> is_int (extent (task w))"
    using assms(3) by (induction js) (auto split: option.splits)
  with assms(1,2) show "is_int (min_t (task w))" and "is_int (extent (task w))"
    by (simp_all add: submissions_def)
qed

lemma enqueue_invariant:
  assumes inv: "invariant_on (view m) (jobs (work_queue m)) ths tr"
    and en: "enqueue_work_already_locked env p js m1 = Inr m'"
    and m1: "work_queue m1 = work_queue m"
    and dist: "distinct js"
    and fresh: "\<And>a. a \<in> set js \<Longrightarrow> mem m a = None"
    and born: "\<And>a w. a \<in> set js \<Longrightarrow> mem m1 a = Some w \<Longrightarrow>
        active_workers w = 0 \<and> exit_status w = 0 \<and> 0 < extent (task w)"
    and other: "\<And>a. a \<notin> set js \<Longrightarrow> mem m1 a = mem m a"
    and ints: "int_arguments (submissions (mem m') (Join js))"
    and news: "\<And>th. th \<in> set news \<Longrightarrow>
        (\<forall>a. \<not> runs a (activity th))
        \<and> call_ok (view m') (tr @ submissions (mem m') (Join js)) th"
  shows "invariant_on (view m') (jobs (work_queue m')) (ths @ news)
           (tr @ submissions (mem m') (Join js))"
proof -
  note ee = enqueue_effect [OF en]
  let ?stack0 = "jobs (initialize_if_needed env (work_queue m))"
  have stack': "jobs (work_queue m') = js @ ?stack0"
    using ee(3) m1 by simp
  have there: "\<exists>w. mem m1 a = Some w" if "a \<in> set js" for a
    using ee(6) that by auto
  show ?thesis
    unfolding stack' using inv dist
  proof (rule inv_enqueue)
    show "view m a = None" if "a \<in> set js" for a
      using fresh [OF that] by (simp add: view_def)
    show "view m' a = view m a" if "a \<notin> set js" for a
      using that ee(5) [of a] other [OF that] by (simp add: view_def)
    show "\<exists>t0. view m' a = Some (min_t t0, extent t0, serial t0, 0, 0) \<and> 0 < extent t0
             \<and> is_int (min_t t0) \<and> is_int (extent t0)
             \<and> submitted a (submissions (mem m') (Join js)) = [t0]"
      if "a \<in> set js" for a
    proof -
      from there [OF that] obtain w where w: "mem m1 a = Some w" ..
      from born [OF that w] have b: "active_workers w = 0" "exit_status w = 0"
        "0 < extent (task w)" by simp_all
      from ee(5) [of a] that w have w': "mem m' a = Some (w\<lparr>parent := p\<rparr>)" by simp
      then have "view m' a = Some (min_t (task w), extent (task w), serial (task w), 0, 0)"
        using b by (simp add: view_def progress_def)
      moreover have "submitted a (submissions (mem m') (Join js)) = [task w]"
        using submitted_submissions [OF dist, of a "mem m'"] that w' by simp
      moreover have "is_int (min_t (task w))" "is_int (extent (task w))"
        using int_arguments_submissions [OF ints that w'] by simp_all
      ultimately show ?thesis using b(3) by blast
    qed
    show "submitted a (submissions (mem m') (Join js)) = []" if "a \<notin> set js" for a
      using submitted_submissions [OF dist, of a "mem m'"] that by simp
    show "\<And>a. calls_of a (submissions (mem m') (Join js)) = []"
      "\<And>a. returns_of a (submissions (mem m') (Join js)) = []" by simp_all
    show "set ?stack0 \<subseteq> set (jobs (work_queue m))"
      by (auto simp: initialize_if_needed_fields)
    show "distinct ?stack0"
      using inv_parts(1) [OF inv] by (simp add: initialize_if_needed_fields)
    show "\<And>th. th \<in> set news \<Longrightarrow> (\<forall>a. \<not> runs a (activity th))
        \<and> call_ok (view m') (tr @ submissions (mem m') (Join js)) th"
      by (rule news)
  qed
qed

lemma inv_new_idle_threads:
  assumes inv: "invariant_on P stack ths tr"
    and news: "\<And>th. th \<in> set news \<Longrightarrow> (\<forall>a. \<not> runs a (activity th)) \<and> call_ok P tr th"
  shows "invariant_on P stack (ths @ news) tr"
proof -
  have "invariant_on P ([] @ stack) (ths @ news) (tr @ [])"
    using inv
  proof (rule inv_enqueue)
    show "set stack \<subseteq> set stack" by simp
    show "distinct stack" using inv_parts(1) [OF inv] .
    show "\<And>th. th \<in> set news \<Longrightarrow> (\<forall>a. \<not> runs a (activity th)) \<and> call_ok P (tr @ []) th"
      using news by simp
  qed simp_all
  then show ?thesis by simp
qed

lemma spawned_idle:
  "th \<in> set (spawned env m e m') \<Longrightarrow> (\<forall>a. \<not> runs a (activity th)) \<and> call_ok P tr th"
  by (cases e) (auto simp: spawned_def call_ok_def)

lemma unborn_not_submitted:
  assumes "invariant_on (view m) stack ths tr" and "mem m a = None"
  shows "submitted a tr = []"
proof -
  from inv_parts(2) [OF assms(1)]
  have "job_ok (view m a) (a \<in> set stack) (running_count a ths)
             (submitted a tr) (calls_of a tr) (returns_of a tr)"
    by (simp add: jobs_ok_def)
  with assms(2) show ?thesis by (simp add: view_def)
qed

lemma par_for_enter_cases [consumes 1, case_names returned joined]:
  assumes en: "halide_default_do_par_for_enter env p job uc f mn sz cl m = Inr (e, m')"
  obtains (returned) "e = Return_now 0" "m' = m" "sz \<le> 0"
  | (joined) m1 where "e = Join [job]" "0 < sz"
      "enqueue_work_already_locked env p [job] m1 = Inr m'"
      "work_queue m1 = work_queue m"
      "mem m1 = (mem m)(job \<mapsto> par_for_job uc f mn sz cl)"
proof (cases "sz \<le> 0")
  case True
  with en have "e = Return_now 0" "m' = m"
    by (simp_all add: halide_default_do_par_for_enter_def)
  then show ?thesis using True by (rule returned)
next
  case False
  let ?m1 = "m\<lparr>mem := (mem m)(job \<mapsto> par_for_job uc f mn sz cl)\<rparr>"
  from False en have "enqueue_work_already_locked env p [job] ?m1 = Inr m'" "e = Join [job]"
    by (auto simp: halide_default_do_par_for_enter_def split: sum.splits)
  with False show ?thesis by (intro joined [of ?m1]) simp_all
qed

lemma parallel_tasks_enter_cases [consumes 2, case_names returned joined]:
  assumes en: "halide_default_do_parallel_tasks_enter env p base uc tasks m = Inr (e, m')"
    and fresh: "\<forall>k < length tasks. mem m (base + k) = None"
  obtains (returned) "e = Return_now 0" "m' = m"
  | (joined) js m1 where "e = Join js" "js \<noteq> []" "distinct js"
      "enqueue_work_already_locked env p js m1 = Inr m'"
      "work_queue m1 = work_queue m"
      "\<And>a. a \<in> set js \<Longrightarrow> mem m a = None"
      "\<And>a w. a \<in> set js \<Longrightarrow> mem m1 a = Some w \<Longrightarrow>
         active_workers w = 0 \<and> exit_status w = 0 \<and> 0 < extent (task w)"
      "\<And>a. a \<notin> set js \<Longrightarrow> mem m1 a = mem m a"
proof -
  from en obtain n js' where
    c: "copy_tasks uc tasks 0 0 (int (length tasks)) (replicate (length tasks) None)
          = Inr (n, js')"
    by (auto simp: halide_default_do_parallel_tasks_enter_def split: sum.splits)
  note cs = copy_tasks_start [OF c]
  show ?thesis
  proof (cases "n = 0")
    case True
    with en c have "e = Return_now 0" "m' = m"
      by (simp_all add: halide_default_do_parallel_tasks_enter_def)
    then show ?thesis by (rule returned)
  next
    case False
    let ?js = "map (\<lambda>i. base + i) [0..<nat n]"
    let ?m1 = "m\<lparr>mem := store_array (mem m) base js'\<rparr>"
    from False en c have enq: "enqueue_work_already_locked env p ?js ?m1 = Inr m'"
      and e: "e = Join ?js"
      by (auto simp: halide_default_do_parallel_tasks_enter_def split: sum.splits)
    from False cs(2) have npos: "0 < nat n" by simp
    have inj: "a \<in> set ?js \<longleftrightarrow> base \<le> a \<and> a < base + nat n" for a
    proof
      assume "a \<in> set ?js"
      then show "base \<le> a \<and> a < base + nat n" by auto
    next
      assume "base \<le> a \<and> a < base + nat n"
      then have "a = base + (a - base)" "a - base < nat n" by linarith+
      then have "a \<in> (\<lambda>i. base + i) ` {0..<nat n}"
        by (intro image_eqI [of _ _ "a - base"]) simp_all
      then show "a \<in> set ?js" by simp
    qed
    show ?thesis
    proof (rule joined [of ?js ?m1])
      show "e = Join ?js" by (rule e)
      show "?js \<noteq> []" using npos by simp
      show "enqueue_work_already_locked env p ?js ?m1 = Inr m'" by (rule enq)
      show "work_queue ?m1 = work_queue m" by simp
      show "distinct ?js" by (simp add: distinct_map inj_on_def)
      show "mem m a = None" if "a \<in> set ?js" for a
      proof -
        from that inj [of a] have "a = base + (a - base)" "a - base < nat n" by linarith+
        with fresh cs(3) show ?thesis by (metis less_le_trans)
      qed
      show "active_workers w = 0 \<and> exit_status w = 0 \<and> 0 < extent (task w)"
        if "a \<in> set ?js" "mem ?m1 a = Some w" for a w
      proof -
        from that(1) inj [of a] have k0: "a = base + (a - base)" "a - base < nat n"
          by linarith+
        define k where "k = a - base"
        with k0 have k: "a = base + k" "k < nat n" by simp_all
        with cs(1,3) that(2) have "js' ! k = Some w" "k < length js'"
          by (simp_all add: store_array_def)
        from cs(4) [OF this(2,1)] show ?thesis by (auto simp: task_job_def)
      qed
      show "mem ?m1 a = mem m a" if "a \<notin> set ?js" for a
      proof (cases "base \<le> a \<and> a < base + length js'")
        case False
        then show ?thesis by (auto simp: store_array_def)
      next
        case True
        then have k: "a - base < length js'" "a = base + (a - base)" by linarith+
        from that inj [of a] True have ge: "\<not> a - base < nat n" by auto
        have "js' ! (a - base) = None"
        proof (cases "js' ! (a - base)")
          case (Some w)
          from cs(4) [OF k(1) Some] ge show ?thesis by simp
        qed simp
        moreover from fresh k cs(1) have "mem m a = None" by metis
        ultimately show ?thesis using True by (simp add: store_array_def)
      qed
    qed
  qed
qed

lemma call_par_for_invariant:
  assumes inv: "invariant_on (view m) (jobs (work_queue m)) ths tr"
    and fresh: "mem m job = None"
    and en: "halide_default_do_par_for_enter env p job uc f mn sz cl m = Inr (e, m')"
    and ints: "int_arguments (submissions (mem m') e)"
  shows "invariant_on (view m') (jobs (work_queue m'))
           (ths @ [new_thread (Par_for job mn sz) e] @ spawned env m e m')
           (tr @ submissions (mem m') e)"
  using en
proof (cases rule: par_for_enter_cases)
  case returned
  have "invariant_on (view m) (jobs (work_queue m))
          (ths @ [new_thread (Par_for job mn sz) (Return_now 0)]) tr"
    using inv
  proof (rule inv_new_idle_threads)
    fix th assume "th \<in> set [new_thread (Par_for job mn sz) (Return_now 0)]"
    then have "th = new_thread (Par_for job mn sz) (Return_now 0)" by simp
    with returned(3) show "(\<forall>a. \<not> runs a (activity th)) \<and> call_ok (view m) tr th"
      by (simp add: new_thread_def call_ok_def)
  qed
  then show ?thesis unfolding returned(1,2) by (simp add: spawned_def)
next
  case (joined m1)
  let ?w = "par_for_job uc f mn sz cl"
  have w': "mem m' job = Some (?w\<lparr>parent := p\<rparr>)"
    using enqueue_effect(5) [OF joined(3), of job] joined(5) by simp
  have sub: "submitted job (tr @ submissions (mem m') (Join [job])) = [task ?w]"
    using unborn_not_submitted [OF inv fresh] w' by (simp add: submissions_def)
  show ?thesis
    unfolding joined(1) using inv joined(3,4)
  proof (rule enqueue_invariant)
    show "distinct [job]" by simp
    show "\<And>a. a \<in> set [job] \<Longrightarrow> mem m a = None" using fresh by simp
    show "\<And>a w. a \<in> set [job] \<Longrightarrow> mem m1 a = Some w \<Longrightarrow>
        active_workers w = 0 \<and> exit_status w = 0 \<and> 0 < extent (task w)"
      using joined(2,5) by (auto simp: par_for_job_def)
    show "\<And>a. a \<notin> set [job] \<Longrightarrow> mem m1 a = mem m a" using joined(5) by simp
    show "int_arguments (submissions (mem m') (Join [job]))" using ints joined(1) by simp
    fix th
    assume "th \<in> set ([new_thread (Par_for job mn sz) (Join [job])]
                      @ spawned env m (Join [job]) m')"
    then consider "th = new_thread (Par_for job mn sz) (Join [job])"
      | "th \<in> set (spawned env m (Join [job]) m')" by auto
    then show "(\<forall>a. \<not> runs a (activity th))
        \<and> call_ok (view m') (tr @ submissions (mem m') (Join [job])) th"
    proof cases
      case 1
      then show ?thesis using sub
        by (simp add: new_thread_def call_ok_def par_for_job_def)
    next
      case 2
      then show ?thesis by (rule spawned_idle)
    qed
  qed
qed

lemma call_parallel_tasks_invariant:
  assumes inv: "invariant_on (view m) (jobs (work_queue m)) ths tr"
    and fresh: "\<forall>k < length tasks. mem m (base + k) = None"
    and en: "halide_default_do_parallel_tasks_enter env p base uc tasks m = Inr (e, m')"
    and ints: "int_arguments (submissions (mem m') e)"
  shows "invariant_on (view m') (jobs (work_queue m'))
           (ths @ [new_thread (Parallel_tasks (joined_jobs e)) e] @ spawned env m e m')
           (tr @ submissions (mem m') e)"
  using en fresh
proof (cases rule: parallel_tasks_enter_cases)
  case returned
  have "invariant_on (view m) (jobs (work_queue m))
          (ths @ [new_thread (Parallel_tasks []) (Return_now 0)]) tr"
    using inv
  proof (rule inv_new_idle_threads)
    fix th assume "th \<in> set [new_thread (Parallel_tasks []) (Return_now 0)]"
    then have "th = new_thread (Parallel_tasks []) (Return_now 0)" by simp
    then show "(\<forall>a. \<not> runs a (activity th)) \<and> call_ok (view m) tr th"
      by (simp add: new_thread_def call_ok_def)
  qed
  then show ?thesis unfolding returned by (simp add: spawned_def joined_jobs_def)
next
  case (joined js m1)
  show ?thesis
    unfolding joined(1) joined_jobs_def entered.case using inv joined(4,5,3,6,7,8)
  proof (rule enqueue_invariant)
    show "int_arguments (submissions (mem m') (Join js))" using ints joined(1) by simp
    fix th
    assume "th \<in> set ([new_thread (Parallel_tasks js) (Join js)]
                      @ spawned env m (Join js) m')"
    then consider "th = new_thread (Parallel_tasks js) (Join js)"
      | "th \<in> set (spawned env m (Join js) m')" by auto
    then show "(\<forall>a. \<not> runs a (activity th))
        \<and> call_ok (view m') (tr @ submissions (mem m') (Join js)) th"
    proof cases
      case 1
      then show ?thesis using joined(2)
        by (simp add: new_thread_def call_ok_def)
    next
      case 2
      then show ?thesis by (rule spawned_idle)
    qed
  qed
qed

lemma view_same:
  "(\<And>a. map_option progress (mem m' a) = map_option progress (mem m a)) \<Longrightarrow> view m' = view m"
  by (rule ext) (simp add: view_def)

lemma view_upd:
  "mem m' = (mem m)(j \<mapsto> w') \<Longrightarrow> view m' = (view m)(j \<mapsto> progress w')"
  by (rule ext) (simp add: view_def)

lemma view_upd_others:
  assumes "mem m' j = Some w'"
    and "\<And>a. a \<noteq> j \<Longrightarrow> map_option progress (mem m' a) = map_option progress (mem m a)"
  shows "view m' = (view m)(j \<mapsto> progress w')"
proof (rule ext)
  fix a
  show "view m' a = ((view m)(j \<mapsto> progress w')) a"
    using assms(1) assms(2) [of a] by (cases "a = j") (simp_all add: view_def)
qed

lemma leave_invariant:
  assumes inv: "invariant_on (view m) stack ths tr"
    and t: "t < length ths" and at: "activity (ths ! t) = AtLoopHead"
    and lc: "loop_condition (owned_job_of (ths ! t)) m = Inr False"
  shows "invariant_on (view m) stack
           (ths[t := leave_loop (Option.bind (owned_job_of (ths ! t)) (mem m)) (ths ! t)]) tr"
proof -
  note l = leave_call_ok [OF inv_parts(4) [OF inv t] at lc]
  show ?thesis
    using inv t
  proof (rule inv_quiet)
    show "\<And>a. \<not> runs a (activity (ths ! t))" by (simp add: at)
    show "\<And>a. \<not> runs a (activity
        (leave_loop (Option.bind (owned_job_of (ths ! t)) (mem m)) (ths ! t)))"
      using l by blast
    show "call_ok (view m) tr (leave_loop (Option.bind (owned_job_of (ths ! t)) (mem m)) (ths ! t))"
      using l by blast
  qed
qed

lemma idle_invariant:
  assumes inv: "invariant_on P stack ths tr"
    and t: "t < length ths"
    and old: "\<And>a. \<not> runs a (activity (ths ! t))" "\<forall>r. activity (ths ! t) \<noteq> Returned r"
    and new: "\<And>a. \<not> runs a act" "\<forall>r. act \<noteq> Returned r"
  shows "invariant_on P stack (ths[t := (ths ! t)\<lparr>activity := act\<rparr>]) tr"
  using inv t
proof (rule inv_quiet)
  show "\<And>a. \<not> runs a (activity (ths ! t))" by (rule old)
  show "\<And>a. \<not> runs a (activity ((ths ! t)\<lparr>activity := act\<rparr>))" using new by simp
  show "call_ok P tr ((ths ! t)\<lparr>activity := act\<rparr>)"
    using inv_parts(4) [OF inv t] old(2) new(2) by (rule call_ok_activity)
qed

lemma pass_invariant:
  assumes inv: "invariant_on (view m) (jobs (work_queue m)) ths tr"
    and t: "t < length ths" and at: "activity (ths ! t) = AtLoopHead"
    and d: "dispatch owned m = Inr (act, m')"
  shows "invariant_on (view m') (jobs (work_queue m'))
           (ths[t := (ths ! t)\<lparr>activity := act\<rparr>])
           (tr @ (case act of InParallelTask job myjob \<Rightarrow> [Call job (min_t (task myjob)) 1]
                  | _ \<Rightarrow> []))"
  using d
proof (cases rule: dispatch_cases)
  case (sleep c)
  from sleep(3) have "view m' = view m" by (rule view_same)
  moreover have "invariant_on (view m) (jobs (work_queue m))
      (ths[t := (ths ! t)\<lparr>activity := InCondWait c\<rparr>]) tr"
    using inv t by (rule idle_invariant) (simp_all add: at)
  ultimately show ?thesis using sleep(1,2) by simp
next
  case (claim b job rest w w')
  note v = view_upd_others [OF claim(3,4)]
  have pj: "view m job = Some (min_t (task w), extent (task w), serial (task w),
      exit_status w, active_workers w)"
    using claim(2) by (simp add: view_def progress_def)
  show ?thesis
  proof (cases "serial (task w)")
    case True
    note c = claim(5) [OF True]
    from pj True c have pj': "view m job
        = Some (min_t (task w), extent (task w), True, exit_status w, 0)" by simp
    from inv_claim_serial [OF inv t at claim(1) pj'] c v show ?thesis by simp
  next
    case False
    note c = claim(6) [OF False]
    from c obtain myjob where mj: "act = InParallelTask job myjob"
      "min_t (task myjob) = min_t (task w)" by blast
    from pj False have pj': "view m job
        = Some (min_t (task w), extent (task w), False, exit_status w, active_workers w)"
      by simp
    from inv_claim_parallel [OF inv t at claim(1) pj', of myjob] c v mj show ?thesis by simp
  qed
qed

lemma task_returns_invariant:
  assumes inv: "invariant_on (view m) (jobs (work_queue m)) ths tr"
    and t: "t < length ths" and at: "activity (ths ! t) = InParallelTask job myjob"
    and w: "mem m job = Some w"
  shows "invariant_on (view (finish_job job w r m)) (jobs (work_queue (finish_job job w r m)))
           (ths[t := (ths ! t)\<lparr>activity := AtLoopHead\<rparr>]) (tr @ [Return job r])"
proof -
  have pj: "view m job = Some (min_t (task w), extent (task w), serial (task w),
      exit_status w, active_workers w)"
    using w by (simp add: view_def progress_def)
  have "view (finish_job job w r m)
      = (view m)(job \<mapsto> (min_t (task w), extent (task w), serial (task w),
                          status_after (exit_status w) [r], active_workers w - 1))"
    using view_upd [OF finish_job_effect(4), of job w r m]
    by (simp add: progress_def status_after_single)
  with inv_task_returns [OF inv t at pj, of r] show ?thesis
    by (simp add: finish_job_effect)
qed

lemma serial_invariant:
  assumes inv: "invariant_on (view m) (jobs (work_queue m)) ths tr"
    and t: "t < length ths" and at: "activity (ths ! t) = InSerialTask job iters result"
    and w: "mem m job = Some w"
    and sr: "serial_round job w iters result status m = (act, called, m')"
  shows "invariant_on (view m') (jobs (work_queue m'))
           (ths[t := (ths ! t)\<lparr>activity := act\<rparr>])
           (tr @ (case called of Some (min', n) \<Rightarrow> [Call job min' n, Return job status]
                  | None \<Rightarrow> []))"
  using sr
proof (cases rule: serial_round_cases)
  case (run n w'')
  have pj: "view m job = Some (min_t (task w), extent (task w), serial (task w),
      exit_status w, active_workers w)"
    using w by (simp add: view_def progress_def)
  from at run(1) have at': "activity (ths ! t) = InSerialTask job iters 0" by simp
  from view_upd [OF run(8)] run(9)
  have "view m' = (view m)(job \<mapsto> (int_wrap (min_t (task w) + n), int_wrap (extent (task w) - n),
                      serial (task w), exit_status w, active_workers w))" by simp
  with inv_serial_run [OF inv t at' pj run(2,3,4), of status] run(5,6,7)
  show ?thesis by simp
next
  case (leave w'')
  have pj: "view m job = Some (min_t (task w), extent (task w), serial (task w),
      exit_status w, active_workers w)"
    using w by (simp add: view_def progress_def)
  from view_upd [OF leave(4)] leave(5)
  have "view m' = (view m)(job \<mapsto> (min_t (task w), extent (task w), serial (task w),
                      status_after (exit_status w) [result], active_workers w - 1))" by simp
  with inv_serial_leave [OF inv t at pj] leave(1,2,3)
  show ?thesis by simp
qed

lemma step_invariant:
  assumes "step s s'" and "invariant s" and ints: "int_arguments (trace s')"
  shows "invariant s'"
  using assms(1,2)
proof (cases rule: step.cases)
  case (call_par_for job env parent_id user_context' f min' size' closure' e m')
  from ints have "int_arguments (submissions (mem m') e)"
    unfolding call_par_for(1) by simp
  from call_par_for_invariant [OF assms(2) [unfolded invariant_def] call_par_for(2,3) this]
  show ?thesis unfolding call_par_for(1) invariant_def by simp
next
  case (call_parallel_tasks tasks jobs_base env parent_id user_context' e m')
  from ints have "int_arguments (submissions (mem m') e)"
    unfolding call_parallel_tasks(1) by simp
  from call_parallel_tasks_invariant [OF assms(2) [unfolded invariant_def]
      call_parallel_tasks(2,3) this]
  show ?thesis unfolding call_parallel_tasks(1) invariant_def by simp
next
  case (leave t th)
  from leave_invariant [OF assms(2) [unfolded invariant_def] leave(2)] leave(3,4,5)
  show ?thesis unfolding leave(1) invariant_def by simp
next
  case (pass t th act m')
  from pass_invariant [OF assms(2) [unfolded invariant_def] pass(2) _ pass(6)] pass(3,4)
  show ?thesis unfolding pass(1) invariant_def by simp
next
  case (wake t th c)
  have "view (wake_up (owned_job_of th) c (shared s)) = view (shared s)"
    by (rule view_same) (rule wake_up_effect)
  moreover have "invariant_on (view (shared s)) (jobs (work_queue (shared s)))
      ((pool s)[t := (pool s ! t)\<lparr>activity := AtLoopHead\<rparr>]) (trace s)"
    using assms(2) [unfolded invariant_def] wake(2)
    by (rule idle_invariant) (use wake(3,4) in simp_all)
  ultimately show ?thesis unfolding wake(1) invariant_def using wake(3)
    by (simp add: wake_up_effect)
next
  case (task_returns t th job myjob w result)
  from task_returns_invariant [OF assms(2) [unfolded invariant_def] task_returns(2) _
      task_returns(5), of myjob result] task_returns(3,4)
  show ?thesis unfolding task_returns(1) invariant_def by simp
next
  case (serial t th job iters result w status act called m')
  from serial_invariant [OF assms(2) [unfolded invariant_def] serial(2) _ serial(5,6)] serial(3,4)
  show ?thesis unfolding serial(1) invariant_def by simp
next
  case (set_num_threads env n old m')
  then have "view m' = view (shared s)" "jobs (work_queue m') = jobs (work_queue (shared s))"
    by (auto simp: halide_set_num_threads_def Let_def view_def fun_eq_iff)
  with assms(2) show ?thesis unfolding set_num_threads(1) invariant_def by simp
next
  case (semaphore_init sema n S' r)
  have "view (shared s\<lparr>sem := S'\<rparr>) = view (shared s)"
    by (simp add: view_def fun_eq_iff)
  with assms(2) show ?thesis unfolding semaphore_init(1) invariant_def by simp
next
  case (semaphore_release sema n r m')
  then have "view m' = view (shared s)" "jobs (work_queue m') = jobs (work_queue (shared s))"
    by (auto simp: halide_default_semaphore_release_def Let_def view_def fun_eq_iff
        halide_cond_broadcast_def split: if_splits)
  with assms(2) show ?thesis unfolding semaphore_release(1) invariant_def by simp
next
  case (semaphore_try_acquire sema n S' ok)
  have "view (shared s\<lparr>sem := S'\<rparr>) = view (shared s)"
    by (simp add: view_def fun_eq_iff)
  with assms(2) show ?thesis unfolding semaphore_try_acquire(1) invariant_def by simp
next
  case shutdown_begins
  have "view (shutdown_begin (shared s)) = view (shared s)"
    "jobs (work_queue (shutdown_begin (shared s))) = jobs (work_queue (shared s))"
    by (simp_all add: shutdown_begin_def view_def fun_eq_iff halide_cond_broadcast_def)
  with assms(2) show ?thesis unfolding shutdown_begins(1) invariant_def by simp
next
  case shutdown_ends
  have "view (shutdown_end (shared s)) = view (shared s)"
    "jobs (work_queue (shutdown_end (shared s))) = jobs (work_queue (shared s))"
    by (simp_all add: shutdown_end_def view_def fun_eq_iff)
  with assms(2) show ?thesis unfolding shutdown_ends(1) invariant_def by simp
qed

lemma initial_invariant: "invariant initial_system"
  by (simp add: invariant_def invariant_on_def initial_system_def initial_machine_def
      jobs_ok_def view_def)

lemma step_trace:
  assumes "step s s'"
  obtains es where "trace s' = trace s @ es"
  using assms by (cases rule: step.cases) simp_all

lemma reachable_invariant: "reachable s \<Longrightarrow> int_arguments (trace s) \<Longrightarrow> invariant s"
proof (induction rule: reachable.induct)
  case start
  show ?case by (rule initial_invariant)
next
  case (next_state s s')
  from next_state(2) obtain es where "trace s' = trace s @ es" by (rule step_trace)
  with next_state(4) have "int_arguments (trace s)" by simp
  then have "invariant s" by (rule next_state(3))
  with next_state(2) show ?case using next_state(4) by (rule step_invariant)
qed

lemma initial_range_inv: "range_inv initial_system"
  by (simp add: range_inv_def initial_system_def initial_machine_def enqueued_before_def)

lemma reachable_range_inv: "reachable s \<Longrightarrow> range_inv s"
  by (induction rule: reachable.induct) (auto intro: initial_range_inv step_range_inv)

section \<open>Completed calls\<close>

lemma dead_job_facts:
  assumes inv: "invariant s" and d: "dead (view (shared s) job)"
  obtains w t0 where "mem (shared s) job = Some w"
    "extent (task w) = 0" "active_workers w = 0"
    "job \<notin> set (jobs (work_queue (shared s)))"
    "submitted job (trace s) = [t0]" "serial t0 = serial (task w)"
    "iterations (calls_of job (trace s)) = map int_wrap [min_t t0 .. min_t t0 + extent t0 - 1]"
    "\<not> serial t0 \<Longrightarrow> \<forall>c \<in> set (calls_of job (trace s)). snd c = 1"
    "length (calls_of job (trace s)) = length (returns_of job (trace s))"
    "exit_status w = status_after 0 (returns_of job (trace s))"
    "status_of (view (shared s) job) = exit_status w"
    "is_int (min_t t0)" "is_int (extent t0)"
    "\<forall>c \<in> set (calls_of job (trace s)). is_int (fst c)"
proof -
  from d obtain mn ser ex where v: "view (shared s) job = Some (mn, 0, ser, ex, 0)"
    by (auto simp: dead_def)
  then obtain w where w: "mem (shared s) job = Some w" "progress w = (mn, 0, ser, ex, 0)"
    by (auto simp: view_def)
  from inv have "jobs_ok (view (shared s)) (jobs (work_queue (shared s))) (pool s) (trace s)"
    by (simp add: invariant_def invariant_on_def)
  note live = jobs_okD [OF this v, unfolded live_job_ok_def]
  from live obtain t0 where t0: "submitted job (trace s) = [t0]" "serial t0 = ser"
    "is_int (min_t t0)" "is_int (extent t0)"
    "iterations (calls_of job (trace s))
       = map int_wrap [min_t t0 .. min_t t0 + (extent t0 - 0) - 1]"
    by blast
  show thesis
  proof (rule that [of w t0])
    show "mem (shared s) job = Some w" by (rule w(1))
    show "extent (task w) = 0" "active_workers w = 0" using w(2) by (simp_all add: progress_def)
    show "job \<notin> set (jobs (work_queue (shared s)))" using live by auto
    show "submitted job (trace s) = [t0]" by (rule t0(1))
    show "serial t0 = serial (task w)" using t0(2) w(2) by (simp add: progress_def)
    show "iterations (calls_of job (trace s))
        = map int_wrap [min_t t0 .. min_t t0 + extent t0 - 1]"
      using t0(5) by simp
    show "\<forall>c \<in> set (calls_of job (trace s)). snd c = 1" if "\<not> serial t0"
      using live that t0(2) by simp
    show "length (calls_of job (trace s)) = length (returns_of job (trace s))"
      using live by (simp split: if_splits)
    show "exit_status w = status_after 0 (returns_of job (trace s))"
      using live w(2) by (simp add: progress_def)
    show "status_of (view (shared s) job) = exit_status w"
      using v w(2) by (simp add: status_of_def progress_def)
    show "is_int (min_t t0)" "is_int (extent t0)" by (rule t0(3), rule t0(4))
    show "\<forall>c \<in> set (calls_of job (trace s)). is_int (fst c)" using live by blast
  qed
qed


text \<open>
  C6. In every state the system can reach, the arguments of the calls so far being of
  type \<open>int\<close>, in which a call \<open>par_for(min, size)\<close> with \<open>size > 0\<close> has returned \<open>r\<close>: the
  calls of the task body made for its job are exactly those for the \<open>size\<close> indices that
  follow from \<open>min\<close> on in the type \<open>int\<close>, one iteration each, in this order, and no
  index twice. When \<open>min + size - 1\<close> is at most \<open>INT_MAX\<close>, these are the indices
  \<open>min, min + 1, ..., min + size - 1\<close>. As many calls have returned; the job has extent 0,
  no active worker and is off the stack; and \<open>r\<close> is the job's exit status. Claiming
  from a parallel job hands the thread the job as it was (so the iteration run is the
  \<open>min\<close> from before the increment), moves \<open>min\<close> on by 1 and \<open>extent\<close> down by 1 in the
  queue's copy, both in the type \<open>int\<close>, and takes the job off the stack exactly when the
  extent has become 0.
\<close>

theorem par_for_each_iteration_once:
  assumes "reachable s" and "int_arguments (trace s)" and "t < length (pool s)"
    and "call (pool s ! t) = Par_for job min' size'" and "0 < size'"
    and "activity (pool s ! t) = Returned r"
  shows "calls_of job (trace s) = map (\<lambda>i. (int_wrap i, 1)) [min' .. min' + size' - 1]
     \<and> distinct (calls_of job (trace s))
     \<and> (min' + size' - 1 \<le> 2147483647 \<longrightarrow>
          calls_of job (trace s) = map (\<lambda>i. (i, 1)) [min' .. min' + size' - 1])
     \<and> length (returns_of job (trace s)) = nat size'
     \<and> (\<exists>w. mem (shared s) job = Some w \<and> r = exit_status w
            \<and> extent (task w) = 0 \<and> active_workers w = 0
            \<and> job \<notin> set (jobs (work_queue (shared s))))
     \<and> (\<forall>b rest w m act m'. claim_job b job rest w m = (act, m') \<and> \<not> serial (task w) \<longrightarrow>
            act = InParallelTask job (w\<lparr>active_workers := active_workers w + 1\<rparr>)
            \<and> mem m' = (mem m)(job \<mapsto> w\<lparr>active_workers := active_workers w + 1,
                  task := (task w)\<lparr>min_t := int_wrap (min_t (task w) + 1),
                                    extent := int_wrap (extent (task w) - 1)\<rparr>\<rparr>)
            \<and> jobs (work_queue m')
                = (if int_wrap (extent (task w) - 1) = 0 then b @ rest else b @ job # rest))"
proof -
  from assms(1,2) have inv: "invariant s" by (rule reachable_invariant)
  then have "call_ok (view (shared s)) (trace s) (pool s ! t)"
    using assms(3) by (simp add: invariant_def invariant_on_def)
  with assms(4,5,6) obtain t1 where t1: "submitted job (trace s) = [t1]"
    "min_t t1 = min'" "extent t1 = size'" "\<not> serial t1"
    and d: "dead (view (shared s) job)" and r: "status_of (view (shared s) job) = r"
    by (auto simp: call_ok_def)
  from inv d obtain w t0 where f: "mem (shared s) job = Some w"
    "extent (task w) = 0" "active_workers w = 0"
    "job \<notin> set (jobs (work_queue (shared s)))"
    "submitted job (trace s) = [t0]"
    "iterations (calls_of job (trace s)) = map int_wrap [min_t t0 .. min_t t0 + extent t0 - 1]"
    "\<not> serial t0 \<Longrightarrow> \<forall>c \<in> set (calls_of job (trace s)). snd c = 1"
    "length (calls_of job (trace s)) = length (returns_of job (trace s))"
    "status_of (view (shared s) job) = exit_status w"
    "is_int (min_t t0)" "is_int (extent t0)"
    "\<forall>c \<in> set (calls_of job (trace s)). is_int (fst c)"
    by (rule dead_job_facts) blast
  from f(5) t1(1) have eq: "t0 = t1" by simp
  from f(7) eq t1(4) have unit: "\<forall>c \<in> set (calls_of job (trace s)). snd c = 1" by simp
  from f(10,11) eq t1(2,3) have ints: "is_int min'" "is_int size'" by simp_all
  from iterations_unit_calls [OF unit f(12)] f(6) eq t1(2,3)
  have calls: "calls_of job (trace s) = map (\<lambda>i. (int_wrap i, 1)) [min' .. min' + size' - 1]"
    by (simp add: comp_def)
  have "distinct (map int_wrap [min' .. min' + size' - 1])"
    using ints(2) by (intro distinct_wrap_upto) (simp add: is_int_def)
  then have "distinct (map fst (calls_of job (trace s)))"
    unfolding calls by (simp add: comp_def)
  then have dist: "distinct (calls_of job (trace s))" by (simp add: distinct_map)
  have exact: "calls_of job (trace s) = map (\<lambda>i. (i, 1)) [min' .. min' + size' - 1]"
    if "min' + size' - 1 \<le> 2147483647"
  proof -
    have "map (\<lambda>i. (i, 1 :: int)) (map int_wrap [min' .. min' + size' - 1])
        = map (\<lambda>i. (i, 1)) [min' .. min' + size' - 1]"
      unfolding map_wrap_id [OF ints(1) that] ..
    with calls show ?thesis by (simp add: comp_def)
  qed
  from calls have "length (calls_of job (trace s)) = nat size'" by simp
  with f(8) have rets: "length (returns_of job (trace s)) = nat size'" by simp
  have job: "\<exists>w. mem (shared s) job = Some w \<and> r = exit_status w
            \<and> extent (task w) = 0 \<and> active_workers w = 0
            \<and> job \<notin> set (jobs (work_queue (shared s)))"
    using f(1,2,3,4,9) r by simp
  have claim: "\<forall>b rest w m act m'.
      claim_job b job rest w m = (act, m') \<and> \<not> serial (task w) \<longrightarrow>
            act = InParallelTask job (w\<lparr>active_workers := active_workers w + 1\<rparr>)
            \<and> mem m' = (mem m)(job \<mapsto> w\<lparr>active_workers := active_workers w + 1,
                  task := (task w)\<lparr>min_t := int_wrap (min_t (task w) + 1),
                                    extent := int_wrap (extent (task w) - 1)\<rparr>\<rparr>)
            \<and> jobs (work_queue m')
                = (if int_wrap (extent (task w) - 1) = 0 then b @ rest else b @ job # rest)"
    using claim_job_parallel by auto
  from exact have exact': "min' + size' - 1 \<le> 2147483647 \<longrightarrow>
          calls_of job (trace s) = map (\<lambda>i. (i, 1)) [min' .. min' + size' - 1]" ..
  from calls dist exact' rets job claim show ?thesis by (intro conjI)
qed


section \<open>The exit status of a job\<close>

lemma progress_step_upd:
  assumes "P j = Some (mn, ext, ser, ex, act)"
  shows "progress_step (P a) ((P(j \<mapsto> (mn', ext', ser, status_after ex [r], act'))) a)"
proof (cases "a = j")
  case True
  with assms show ?thesis unfolding progress_step_def by auto
next
  case False
  then show ?thesis by (simp add: progress_step_def)
qed

lemma enqueue_progress_step:
  assumes en: "enqueue_work_already_locked env p js m1 = Inr m'"
    and fresh: "\<And>a. a \<in> set js \<Longrightarrow> mem m a = None"
    and born: "\<And>a w. a \<in> set js \<Longrightarrow> mem m1 a = Some w \<Longrightarrow>
        active_workers w = 0 \<and> exit_status w = 0 \<and> 0 < extent (task w)"
    and other: "\<And>a. a \<notin> set js \<Longrightarrow> mem m1 a = mem m a"
  shows "progress_step (view m a) (view m' a)"
proof (cases "a \<in> set js")
  case False
  with enqueue_effect(5) [OF en, of a] other [OF False] show ?thesis
    by (simp add: view_def progress_step_def)
next
  case True
  with enqueue_effect(6) [OF en] obtain w where w: "mem m1 a = Some w" by auto
  from born [OF True w] enqueue_effect(5) [OF en, of a] True w fresh [OF True]
  show ?thesis by (simp add: view_def progress_step_def progress_def)
qed

lemma step_progress:
  assumes "step s s'"
  shows "progress_step (view (shared s) a) (view (shared s') a)"
  using assms
proof (cases rule: step.cases)
  case (call_par_for job env parent_id user_context' f min' size' closure' e m')
  from call_par_for(3) show ?thesis
  proof (cases rule: par_for_enter_cases)
    case returned
    then show ?thesis unfolding call_par_for(1) by (simp add: progress_step_def)
  next
    case (joined m1)
    have "progress_step (view (shared s) a) (view m' a)"
      using joined(3)
    proof (rule enqueue_progress_step)
      show "\<And>a. a \<in> set [job] \<Longrightarrow> mem (shared s) a = None" using call_par_for(2) by simp
      show "\<And>a w. a \<in> set [job] \<Longrightarrow> mem m1 a = Some w \<Longrightarrow>
          active_workers w = 0 \<and> exit_status w = 0 \<and> 0 < extent (task w)"
        using joined(2,5) by (auto simp: par_for_job_def)
      show "\<And>a. a \<notin> set [job] \<Longrightarrow> mem m1 a = mem (shared s) a" using joined(5) by simp
    qed
    then show ?thesis unfolding call_par_for(1) by simp
  qed
next
  case (call_parallel_tasks tasks jobs_base env parent_id user_context' e m')
  from call_parallel_tasks(3,2) show ?thesis
  proof (cases rule: parallel_tasks_enter_cases)
    case returned
    then show ?thesis unfolding call_parallel_tasks(1) by (simp add: progress_step_def)
  next
    case (joined js m1)
    from joined(4,6,7,8) have "progress_step (view (shared s) a) (view m' a)"
      by (rule enqueue_progress_step)
    then show ?thesis unfolding call_parallel_tasks(1) by simp
  qed
next
  case (leave t th)
  then show ?thesis by (simp add: progress_step_def)
next
  case (pass t th act m')
  from pass(6) have "progress_step (view (shared s) a) (view m' a)"
  proof (cases rule: dispatch_cases)
    case (sleep c)
    from sleep(3) have "view m' = view (shared s)" by (rule view_same)
    then show ?thesis by (simp add: progress_step_def)
  next
    case (claim b job rest w w')
    note v = view_upd_others [OF claim(3,4)]
    have pj: "view (shared s) job = Some (min_t (task w), extent (task w), serial (task w),
        exit_status w, active_workers w)"
      using claim(2) by (simp add: view_def progress_def)
    have "\<exists>mn' ext' act'. progress w'
        = (mn', ext', serial (task w), status_after (exit_status w) [0], act')"
      using claim(5,6) by (cases "serial (task w)") (auto simp: status_after_single)
    then obtain mn' ext' act' where "progress w'
        = (mn', ext', serial (task w), status_after (exit_status w) [0], act')" by blast
    with progress_step_upd [where P = "view (shared s)" and j = job and a = a
        and mn' = mn' and ext' = ext' and r = 0 and act' = act', OF pj] v
    show ?thesis by simp
  qed
  then show ?thesis unfolding pass(1) by simp
next
  case (wake t th c)
  have "view (wake_up (owned_job_of th) c (shared s)) = view (shared s)"
    by (rule view_same) (rule wake_up_effect)
  then show ?thesis unfolding wake(1) by (simp add: progress_step_def)
next
  case (task_returns t th job myjob w result)
  have pj: "view (shared s) job = Some (min_t (task w), extent (task w), serial (task w),
      exit_status w, active_workers w)"
    using task_returns(5) by (simp add: view_def progress_def)
  have "view (finish_job job w result (shared s))
      = (view (shared s))(job \<mapsto> (min_t (task w), extent (task w), serial (task w),
                          status_after (exit_status w) [result], active_workers w - 1))"
    using view_upd [OF finish_job_effect(4), of job w result "shared s"]
    by (simp add: progress_def status_after_single)
  with progress_step_upd [where P = "view (shared s)" and j = job and a = a
      and mn' = "min_t (task w)" and ext' = "extent (task w)" and r = result
      and act' = "active_workers w - 1", OF pj]
  show ?thesis unfolding task_returns(1) by simp
next
  case (serial t th job iters result w status act called m')
  have pj: "view (shared s) job = Some (min_t (task w), extent (task w), serial (task w),
      exit_status w, active_workers w)"
    using serial(5) by (simp add: view_def progress_def)
  from serial(6) have "progress_step (view (shared s) a) (view m' a)"
  proof (cases rule: serial_round_cases)
    case (run n w'')
    from view_upd [OF run(8)] run(9)
    have "view m' = (view (shared s))(job \<mapsto> (int_wrap (min_t (task w) + n),
        int_wrap (extent (task w) - n),
        serial (task w), status_after (exit_status w) [0], active_workers w))"
      by (simp add: status_after_single)
    with progress_step_upd [where P = "view (shared s)" and j = job and a = a
        and mn' = "int_wrap (min_t (task w) + n)" and ext' = "int_wrap (extent (task w) - n)"
        and r = 0
        and act' = "active_workers w", OF pj]
    show ?thesis by simp
  next
    case (leave w'')
    from view_upd [OF leave(4)] leave(5)
    have "view m' = (view (shared s))(job \<mapsto> (min_t (task w), extent (task w),
        serial (task w), status_after (exit_status w) [result], active_workers w - 1))"
      by simp
    with progress_step_upd [where P = "view (shared s)" and j = job and a = a
        and mn' = "min_t (task w)" and ext' = "extent (task w)" and r = result
        and act' = "active_workers w - 1", OF pj]
    show ?thesis by simp
  qed
  then show ?thesis unfolding serial(1) by simp
next
  case (set_num_threads env n old m')
  then have "view m' = view (shared s)"
    by (auto simp: halide_set_num_threads_def Let_def view_def fun_eq_iff)
  then show ?thesis unfolding set_num_threads(1) by (simp add: progress_step_def)
next
  case (semaphore_init sema n S' r)
  then show ?thesis by (simp add: progress_step_def view_def)
next
  case (semaphore_release sema n r m')
  then have "view m' = view (shared s)"
    by (auto simp: halide_default_semaphore_release_def Let_def view_def fun_eq_iff
        halide_cond_broadcast_def split: if_splits)
  then show ?thesis unfolding semaphore_release(1) by (simp add: progress_step_def)
next
  case (semaphore_try_acquire sema n S' ok)
  then show ?thesis by (simp add: progress_step_def view_def)
next
  case shutdown_begins
  then show ?thesis
    by (simp add: progress_step_def view_def shutdown_begin_def halide_cond_broadcast_def)
next
  case shutdown_ends
  then show ?thesis by (simp add: progress_step_def view_def shutdown_end_def)
qed

lemma step_exit_status:
  assumes "step s s'"
  shows "case mem (shared s) a of
           None \<Rightarrow> (\<forall>w'. mem (shared s') a = Some w' \<longrightarrow> exit_status w' = 0)
         | Some w \<Rightarrow> (\<exists>w'. mem (shared s') a = Some w'
                        \<and> (exit_status w' = exit_status w \<or> exit_status w' \<noteq> 0))"
proof -
  note ps = step_progress [OF assms, of a, unfolded progress_step_def]
  show ?thesis
  proof (cases "mem (shared s) a")
    case None
    with ps show ?thesis by (auto simp: view_def progress_def)
  next
    case (Some w)
    with ps show ?thesis
      by (auto simp: view_def progress_def status_after_single split: if_splits)
  qed
qed

lemma steps_exit_status:
  assumes "step\<^sup>*\<^sup>* s s'" and "mem (shared s) a = Some w" and "exit_status w \<noteq> 0"
  shows "\<exists>w'. mem (shared s') a = Some w' \<and> exit_status w' \<noteq> 0"
  using assms
proof (induction rule: rtranclp_induct)
  case base
  then show ?case by simp
next
  case (step y z)
  then obtain w1 where w1: "mem (shared y) a = Some w1" "exit_status w1 \<noteq> 0" by blast
  from step_exit_status [OF step(2), of a] w1 show ?case by auto
qed

text \<open>
  C9. The jobs that the two calls build start with exit status 0, and so does every job
  that a step of the system brings into being. The end of the loop body writes the exit
  status only when the result is not 0. So a step leaves the exit status of a job as it
  is or makes it non-zero, and once it is non-zero it stays non-zero, whatever the
  later iterations return.
\<close>

theorem exit_status_never_reset:
  "exit_status (par_for_job uc f mn sz cl) = 0 \<and> exit_status (task_job uc t) = 0
   \<and> mem (finish_job job w r m) job
       = Some (w\<lparr>exit_status := (if r \<noteq> 0 then r else exit_status w),
                 active_workers := active_workers w - 1\<rparr>)
   \<and> (step s s' \<longrightarrow>
        (case mem (shared s) a of
           None \<Rightarrow> (\<forall>w'. mem (shared s') a = Some w' \<longrightarrow> exit_status w' = 0)
         | Some w0 \<Rightarrow> (\<exists>w'. mem (shared s') a = Some w'
                         \<and> (exit_status w' = exit_status w0 \<or> exit_status w' \<noteq> 0))))
   \<and> (step\<^sup>*\<^sup>* s s' \<and> mem (shared s) a = Some w1 \<and> exit_status w1 \<noteq> 0 \<longrightarrow>
        (\<exists>w'. mem (shared s') a = Some w' \<and> exit_status w' \<noteq> 0))"
  using step_exit_status [of s s' a] steps_exit_status [of s s' a w1]
  by (simp add: par_for_job_def task_job_def finish_job_effect)

section \<open>The desired number of threads stays within its bounds\<close>

text \<open>
  C10. In every state the system can reach after a first job has been enqueued,
  \<open>desired_threads_working\<close> is at least 1 and at most 256. \<open>halide_set_num_threads(n)\<close>
  returns the previous value and stores \<open>clamp_num_threads\<close> of \<open>n\<close>, or of the default
  from the environment when \<open>n\<close> is 0; the enqueue code leaves the value alone when the
  queue is initialized and otherwise stores \<open>clamp_num_threads\<close> of it, or of the default
  when it is 0; and \<open>clamp_num_threads\<close> yields a value from 1 to 256.
\<close>

theorem desired_threads_within_bounds:
  "(reachable s \<and> enqueued_before s \<longrightarrow>
      1 \<le> desired_threads_working (work_queue (shared s))
      \<and> desired_threads_working (work_queue (shared s)) \<le> 256)
   \<and> (halide_set_num_threads env n m = (old, m') \<longrightarrow>
        old = desired_threads_working (work_queue m)
        \<and> desired_threads_working (work_queue m')
            = clamp_num_threads (if n = 0 then default_desired_num_threads env else n))
   \<and> (enqueue_work_already_locked env p js m1 = Inr m2 \<longrightarrow>
        desired_threads_working (work_queue m2)
          = (if initialized (work_queue m1) then desired_threads_working (work_queue m1)
             else clamp_num_threads
                    (if desired_threads_working (work_queue m1) = 0
                     then default_desired_num_threads env
                     else desired_threads_working (work_queue m1))))
   \<and> 1 \<le> clamp_num_threads k \<and> clamp_num_threads k \<le> 256"
proof -
  have "1 \<le> desired_threads_working (work_queue (shared s))
      \<and> desired_threads_working (work_queue (shared s)) \<le> 256"
    if "reachable s" "enqueued_before s"
    using reachable_range_inv [OF that(1)] that(2)
    by (simp add: range_inv_def desired_in_range_def MAX_THREADS_def)
  moreover have "old = desired_threads_working (work_queue m)
        \<and> desired_threads_working (work_queue m')
            = clamp_num_threads (if n = 0 then default_desired_num_threads env else n)"
    if "halide_set_num_threads env n m = (old, m')"
    using that by (auto simp: halide_set_num_threads_def Let_def)
  moreover have "desired_threads_working (work_queue m2)
          = (if initialized (work_queue m1) then desired_threads_working (work_queue m1)
             else clamp_num_threads
                    (if desired_threads_working (work_queue m1) = 0
                     then default_desired_num_threads env
                     else desired_threads_working (work_queue m1)))"
    if "enqueue_work_already_locked env p js m1 = Inr m2"
    using enqueue_effect(2) [OF that] by (simp add: initialize_if_needed_fields)
  moreover have "1 \<le> clamp_num_threads k \<and> clamp_num_threads k \<le> 256"
    using clamp_num_threads_range [of k] by (simp add: MAX_THREADS_def)
  ultimately show ?thesis by blast
qed

section \<open>Four runs\<close>

lemmas example_defs =
  example_system_def example_queue_def example_job_def example_caller_def
  example_task_job_def example_joiner_def example_env_def example_task_def
  par_for_job_def task_job_def

lemma example_run_1:
  "step initial_system
     (example_system [10] 10 (example_job 0 2 0 0) (example_caller AtLoopHead)
        [Submit 10 (task (example_job 0 2 0 0))])"
proof -
  have e: "halide_default_do_par_for_enter example_env 1 10 0 7 0 2 0 (shared initial_system)
      = Inr (Join [10],
             shared (example_system [10] 10 (example_job 0 2 0 0) (example_caller AtLoopHead) []))"
    by (simp add: halide_default_do_par_for_enter_def enqueue_work_already_locked_def
        read_jobs_def initialize_if_needed_def clamp_num_threads_def MAX_THREADS_def
        default_desired_num_threads_def spawn_threads.simps wake_threads_def Let_def
        halide_cond_broadcast_def initial_system_def initial_machine_def example_defs)
  have "step initial_system
     \<lparr>shared = shared (example_system [10] 10 (example_job 0 2 0 0) (example_caller AtLoopHead) []),
      pool = pool initial_system @ [new_thread (Par_for 10 0 2) (Join [10])]
               @ spawned example_env (shared initial_system) (Join [10])
                   (shared (example_system [10] 10 (example_job 0 2 0 0)
                      (example_caller AtLoopHead) [])),
      trace = trace initial_system
               @ submissions (mem (shared (example_system [10] 10 (example_job 0 2 0 0)
                      (example_caller AtLoopHead) []))) (Join [10])\<rparr>"
    by (rule step.call_par_for [OF _ e]) (simp add: initial_system_def initial_machine_def)
  then show ?thesis
    by (simp add: initial_system_def initial_machine_def new_thread_def spawned_def
        submissions_def initialize_if_needed_def example_defs)
qed

lemmas dispatch_defs =
  dispatch_def loop_condition_def owned_job_of_def running_def may_try_def enough_threads_def
  threads_that_could_assist_def make_runnable.simps num_semaphores_def claim_job_def Let_def
  int_wrap_def

lemma example_run_2:
  "step (example_system [10] 10 (example_job 0 2 0 0) (example_caller AtLoopHead)
           [Submit 10 (task (example_job 0 2 0 0))])
        (example_system [10] 10 (example_job 1 1 1 0)
           (example_caller (InParallelTask 10 (example_job 0 2 1 0)))
           [Submit 10 (task (example_job 0 2 0 0)), Call 10 0 1])"
proof -
  let ?s = "example_system [10] 10 (example_job 0 2 0 0) (example_caller AtLoopHead)
           [Submit 10 (task (example_job 0 2 0 0))]"
  let ?s' = "example_system [10] 10 (example_job 1 1 1 0)
           (example_caller (InParallelTask 10 (example_job 0 2 1 0)))
           [Submit 10 (task (example_job 0 2 0 0)), Call 10 0 1]"
  have d: "dispatch (owned_job_of (example_caller AtLoopHead)) (shared ?s)
      = Inr (InParallelTask 10 (example_job 0 2 1 0), shared ?s')"
    by (simp add: dispatch_defs example_defs)
  have "step ?s \<lparr>shared = shared ?s',
      pool = (pool ?s)[0 := (example_caller AtLoopHead)\<lparr>activity :=
                InParallelTask 10 (example_job 0 2 1 0)\<rparr>],
      trace = trace ?s @ (case InParallelTask 10 (example_job 0 2 1 0) of
                            InParallelTask job myjob \<Rightarrow> [Call job (min_t (task myjob)) 1]
                          | _ \<Rightarrow> [])\<rparr>"
    by (rule step.pass [OF _ _ _ _ d]) (simp_all add: dispatch_defs example_defs)
  then show ?thesis by (simp add: example_defs)
qed

lemma example_run_3:
  "step (example_system [10] 10 (example_job 1 1 1 0)
           (example_caller (InParallelTask 10 (example_job 0 2 1 0)))
           [Submit 10 (task (example_job 0 2 0 0)), Call 10 0 1])
        (example_system [10] 10 (example_job 1 1 0 (- 7)) (example_caller AtLoopHead)
           [Submit 10 (task (example_job 0 2 0 0)), Call 10 0 1, Return 10 (- 7)])"
proof -
  let ?s = "example_system [10] 10 (example_job 1 1 1 0)
           (example_caller (InParallelTask 10 (example_job 0 2 1 0)))
           [Submit 10 (task (example_job 0 2 0 0)), Call 10 0 1]"
  have "step ?s \<lparr>shared = finish_job 10 (example_job 1 1 1 0) (- 7) (shared ?s),
      pool = (pool ?s)[0 := (example_caller (InParallelTask 10 (example_job 0 2 1 0)))
                \<lparr>activity := AtLoopHead\<rparr>],
      trace = trace ?s @ [Return 10 (- 7)]\<rparr>"
    by (rule step.task_returns [where myjob = "example_job 0 2 1 0"])
      (simp_all add: example_defs)
  then show ?thesis by (simp add: finish_job_def running_def Let_def example_defs)
qed

lemma example_run_4:
  "step (example_system [10] 10 (example_job 1 1 0 (- 7)) (example_caller AtLoopHead)
           [Submit 10 (task (example_job 0 2 0 0)), Call 10 0 1, Return 10 (- 7)])
        (example_system [] 10 (example_job 2 0 1 (- 7))
           (example_caller (InParallelTask 10 (example_job 1 1 1 (- 7))))
           [Submit 10 (task (example_job 0 2 0 0)), Call 10 0 1, Return 10 (- 7), Call 10 1 1])"
proof -
  let ?s = "example_system [10] 10 (example_job 1 1 0 (- 7)) (example_caller AtLoopHead)
           [Submit 10 (task (example_job 0 2 0 0)), Call 10 0 1, Return 10 (- 7)]"
  let ?s' = "example_system [] 10 (example_job 2 0 1 (- 7))
           (example_caller (InParallelTask 10 (example_job 1 1 1 (- 7))))
           [Submit 10 (task (example_job 0 2 0 0)), Call 10 0 1, Return 10 (- 7), Call 10 1 1]"
  have d: "dispatch (owned_job_of (example_caller AtLoopHead)) (shared ?s)
      = Inr (InParallelTask 10 (example_job 1 1 1 (- 7)), shared ?s')"
    by (simp add: dispatch_defs example_defs)
  have "step ?s \<lparr>shared = shared ?s',
      pool = (pool ?s)[0 := (example_caller AtLoopHead)\<lparr>activity :=
                InParallelTask 10 (example_job 1 1 1 (- 7))\<rparr>],
      trace = trace ?s @ (case InParallelTask 10 (example_job 1 1 1 (- 7)) of
                            InParallelTask job myjob \<Rightarrow> [Call job (min_t (task myjob)) 1]
                          | _ \<Rightarrow> [])\<rparr>"
    by (rule step.pass [OF _ _ _ _ d]) (simp_all add: dispatch_defs example_defs)
  then show ?thesis by (simp add: example_defs)
qed

lemma example_run_5:
  "step (example_system [] 10 (example_job 2 0 1 (- 7))
           (example_caller (InParallelTask 10 (example_job 1 1 1 (- 7))))
           [Submit 10 (task (example_job 0 2 0 0)), Call 10 0 1, Return 10 (- 7), Call 10 1 1])
        (example_system [] 10 (example_job 2 0 0 (- 7)) (example_caller AtLoopHead)
           [Submit 10 (task (example_job 0 2 0 0)), Call 10 0 1, Return 10 (- 7), Call 10 1 1,
            Return 10 0])"
proof -
  let ?s = "example_system [] 10 (example_job 2 0 1 (- 7))
           (example_caller (InParallelTask 10 (example_job 1 1 1 (- 7))))
           [Submit 10 (task (example_job 0 2 0 0)), Call 10 0 1, Return 10 (- 7), Call 10 1 1]"
  have "step ?s \<lparr>shared = finish_job 10 (example_job 2 0 1 (- 7)) 0 (shared ?s),
      pool = (pool ?s)[0 := (example_caller (InParallelTask 10 (example_job 1 1 1 (- 7))))
                \<lparr>activity := AtLoopHead\<rparr>],
      trace = trace ?s @ [Return 10 0]\<rparr>"
    by (rule step.task_returns [where myjob = "example_job 1 1 1 (- 7)"])
      (simp_all add: example_defs)
  then show ?thesis by (simp add: finish_job_def running_def Let_def example_defs)
qed

lemma example_run_6:
  "step (example_system [] 10 (example_job 2 0 0 (- 7)) (example_caller AtLoopHead)
           [Submit 10 (task (example_job 0 2 0 0)), Call 10 0 1, Return 10 (- 7), Call 10 1 1,
            Return 10 0])
        (example_system [] 10 (example_job 2 0 0 (- 7)) (example_caller (Returned (- 7)))
           [Submit 10 (task (example_job 0 2 0 0)), Call 10 0 1, Return 10 (- 7), Call 10 1 1,
            Return 10 0])"
proof -
  let ?s = "example_system [] 10 (example_job 2 0 0 (- 7)) (example_caller AtLoopHead)
           [Submit 10 (task (example_job 0 2 0 0)), Call 10 0 1, Return 10 (- 7), Call 10 1 1,
            Return 10 0]"
  have "step ?s (?s\<lparr>pool := (pool ?s)[0 := leave_loop
      (Option.bind (owned_job_of (example_caller AtLoopHead)) (mem (shared ?s)))
      (example_caller AtLoopHead)]\<rparr>)"
    by (rule step.leave) (simp_all add: dispatch_defs example_defs)
  then show ?thesis by (simp add: leave_loop_def owned_job_of_def example_defs)
qed

lemma example_run_reachable:
  "reachable (example_system [] 10 (example_job 2 0 0 (- 7)) (example_caller (Returned (- 7)))
           [Submit 10 (task (example_job 0 2 0 0)), Call 10 0 1, Return 10 (- 7), Call 10 1 1,
            Return 10 0])"
  by (intro reachable.next_state [OF _ example_run_6] reachable.next_state [OF _ example_run_5]
      reachable.next_state [OF _ example_run_4] reachable.next_state [OF _ example_run_3]
      reachable.next_state [OF _ example_run_2] reachable.next_state [OF _ example_run_1]
      reachable.start)







lemma example_final_reachable: "reachable example_final"
  unfolding example_final_def example_trace_def by (rule example_run_reachable)

lemma example_failed_reachable: "reachable example_failed"
  unfolding example_failed_def
  by (intro reachable.next_state [OF _ example_run_3]
      reachable.next_state [OF _ example_run_2] reachable.next_state [OF _ example_run_1]
      reachable.start)

lemma example_failed_steps: "step\<^sup>*\<^sup>* example_failed example_final"
proof -
  have "step\<^sup>*\<^sup>* example_failed
     (example_system [] 10 (example_job 2 0 1 (- 7))
           (example_caller (InParallelTask 10 (example_job 1 1 1 (- 7))))
           [Submit 10 (task (example_job 0 2 0 0)), Call 10 0 1, Return 10 (- 7), Call 10 1 1])"
    unfolding example_failed_def using example_run_4 by (rule r_into_rtranclp)
  then have "step\<^sup>*\<^sup>* example_failed
     (example_system [] 10 (example_job 2 0 0 (- 7)) (example_caller AtLoopHead)
           [Submit 10 (task (example_job 0 2 0 0)), Call 10 0 1, Return 10 (- 7), Call 10 1 1,
            Return 10 0])"
    using example_run_5 by (rule rtranclp.rtrancl_into_rtrancl)
  then show ?thesis
    unfolding example_final_def example_trace_def
    using example_run_6 by (rule rtranclp.rtrancl_into_rtrancl)
qed


subsection \<open>A run at the upper end of the type int\<close>

lemmas wrap_defs = example_defs example_wrapping_caller_def

lemma example_wrap_1:
  "step initial_system
     (example_system [10] 10 (example_job 2147483647 2 0 0) (example_wrapping_caller AtLoopHead)
        [Submit 10 (task (example_job 2147483647 2 0 0))])"
proof -
  have e: "halide_default_do_par_for_enter example_env 1 10 0 7 2147483647 2 0 (shared initial_system)
      = Inr (Join [10],
             shared (example_system [10] 10 (example_job 2147483647 2 0 0) (example_wrapping_caller AtLoopHead) []))"
    by (simp add: halide_default_do_par_for_enter_def enqueue_work_already_locked_def
        read_jobs_def initialize_if_needed_def clamp_num_threads_def MAX_THREADS_def
        default_desired_num_threads_def spawn_threads.simps wake_threads_def Let_def
        halide_cond_broadcast_def initial_system_def initial_machine_def wrap_defs)
  have "step initial_system
     \<lparr>shared = shared (example_system [10] 10 (example_job 2147483647 2 0 0) (example_wrapping_caller AtLoopHead) []),
      pool = pool initial_system @ [new_thread (Par_for 10 2147483647 2) (Join [10])]
               @ spawned example_env (shared initial_system) (Join [10])
                   (shared (example_system [10] 10 (example_job 2147483647 2 0 0)
                      (example_wrapping_caller AtLoopHead) [])),
      trace = trace initial_system
               @ submissions (mem (shared (example_system [10] 10 (example_job 2147483647 2 0 0)
                      (example_wrapping_caller AtLoopHead) []))) (Join [10])\<rparr>"
    by (rule step.call_par_for [OF _ e]) (simp add: initial_system_def initial_machine_def)
  then show ?thesis
    by (simp add: initial_system_def initial_machine_def new_thread_def spawned_def
        submissions_def initialize_if_needed_def wrap_defs)
qed

lemma example_wrap_2:
  "step (example_system [10] 10 (example_job 2147483647 2 0 0) (example_wrapping_caller AtLoopHead)
           [Submit 10 (task (example_job 2147483647 2 0 0))])
        (example_system [10] 10 (example_job (- 2147483648) 1 1 0)
           (example_wrapping_caller (InParallelTask 10 (example_job 2147483647 2 1 0)))
           [Submit 10 (task (example_job 2147483647 2 0 0)), Call 10 2147483647 1])"
proof -
  let ?s = "example_system [10] 10 (example_job 2147483647 2 0 0) (example_wrapping_caller AtLoopHead)
           [Submit 10 (task (example_job 2147483647 2 0 0))]"
  let ?s' = "example_system [10] 10 (example_job (- 2147483648) 1 1 0)
           (example_wrapping_caller (InParallelTask 10 (example_job 2147483647 2 1 0)))
           [Submit 10 (task (example_job 2147483647 2 0 0)), Call 10 2147483647 1]"
  have d: "dispatch (owned_job_of (example_wrapping_caller AtLoopHead)) (shared ?s)
      = Inr (InParallelTask 10 (example_job 2147483647 2 1 0), shared ?s')"
    by (simp add: dispatch_defs wrap_defs)
  have "step ?s \<lparr>shared = shared ?s',
      pool = (pool ?s)[0 := (example_wrapping_caller AtLoopHead)\<lparr>activity :=
                InParallelTask 10 (example_job 2147483647 2 1 0)\<rparr>],
      trace = trace ?s @ (case InParallelTask 10 (example_job 2147483647 2 1 0) of
                            InParallelTask job myjob \<Rightarrow> [Call job (min_t (task myjob)) 1]
                          | _ \<Rightarrow> [])\<rparr>"
    by (rule step.pass [OF _ _ _ _ d]) (simp_all add: dispatch_defs wrap_defs)
  then show ?thesis by (simp add: wrap_defs)
qed

lemma example_wrap_3:
  "step (example_system [10] 10 (example_job (- 2147483648) 1 1 0)
           (example_wrapping_caller (InParallelTask 10 (example_job 2147483647 2 1 0)))
           [Submit 10 (task (example_job 2147483647 2 0 0)), Call 10 2147483647 1])
        (example_system [10] 10 (example_job (- 2147483648) 1 0 (- 7)) (example_wrapping_caller AtLoopHead)
           [Submit 10 (task (example_job 2147483647 2 0 0)), Call 10 2147483647 1, Return 10 (- 7)])"
proof -
  let ?s = "example_system [10] 10 (example_job (- 2147483648) 1 1 0)
           (example_wrapping_caller (InParallelTask 10 (example_job 2147483647 2 1 0)))
           [Submit 10 (task (example_job 2147483647 2 0 0)), Call 10 2147483647 1]"
  have "step ?s \<lparr>shared = finish_job 10 (example_job (- 2147483648) 1 1 0) (- 7) (shared ?s),
      pool = (pool ?s)[0 := (example_wrapping_caller (InParallelTask 10 (example_job 2147483647 2 1 0)))
                \<lparr>activity := AtLoopHead\<rparr>],
      trace = trace ?s @ [Return 10 (- 7)]\<rparr>"
    by (rule step.task_returns [where myjob = "example_job 2147483647 2 1 0"])
      (simp_all add: wrap_defs)
  then show ?thesis by (simp add: finish_job_def running_def Let_def wrap_defs)
qed

lemma example_wrap_4:
  "step (example_system [10] 10 (example_job (- 2147483648) 1 0 (- 7)) (example_wrapping_caller AtLoopHead)
           [Submit 10 (task (example_job 2147483647 2 0 0)), Call 10 2147483647 1, Return 10 (- 7)])
        (example_system [] 10 (example_job (- 2147483647) 0 1 (- 7))
           (example_wrapping_caller (InParallelTask 10 (example_job (- 2147483648) 1 1 (- 7))))
           [Submit 10 (task (example_job 2147483647 2 0 0)), Call 10 2147483647 1, Return 10 (- 7), Call 10 (- 2147483648) 1])"
proof -
  let ?s = "example_system [10] 10 (example_job (- 2147483648) 1 0 (- 7)) (example_wrapping_caller AtLoopHead)
           [Submit 10 (task (example_job 2147483647 2 0 0)), Call 10 2147483647 1, Return 10 (- 7)]"
  let ?s' = "example_system [] 10 (example_job (- 2147483647) 0 1 (- 7))
           (example_wrapping_caller (InParallelTask 10 (example_job (- 2147483648) 1 1 (- 7))))
           [Submit 10 (task (example_job 2147483647 2 0 0)), Call 10 2147483647 1, Return 10 (- 7), Call 10 (- 2147483648) 1]"
  have d: "dispatch (owned_job_of (example_wrapping_caller AtLoopHead)) (shared ?s)
      = Inr (InParallelTask 10 (example_job (- 2147483648) 1 1 (- 7)), shared ?s')"
    by (simp add: dispatch_defs wrap_defs)
  have "step ?s \<lparr>shared = shared ?s',
      pool = (pool ?s)[0 := (example_wrapping_caller AtLoopHead)\<lparr>activity :=
                InParallelTask 10 (example_job (- 2147483648) 1 1 (- 7))\<rparr>],
      trace = trace ?s @ (case InParallelTask 10 (example_job (- 2147483648) 1 1 (- 7)) of
                            InParallelTask job myjob \<Rightarrow> [Call job (min_t (task myjob)) 1]
                          | _ \<Rightarrow> [])\<rparr>"
    by (rule step.pass [OF _ _ _ _ d]) (simp_all add: dispatch_defs wrap_defs)
  then show ?thesis by (simp add: wrap_defs)
qed

lemma example_wrap_5:
  "step (example_system [] 10 (example_job (- 2147483647) 0 1 (- 7))
           (example_wrapping_caller (InParallelTask 10 (example_job (- 2147483648) 1 1 (- 7))))
           [Submit 10 (task (example_job 2147483647 2 0 0)), Call 10 2147483647 1, Return 10 (- 7), Call 10 (- 2147483648) 1])
        (example_system [] 10 (example_job (- 2147483647) 0 0 (- 7)) (example_wrapping_caller AtLoopHead)
           [Submit 10 (task (example_job 2147483647 2 0 0)), Call 10 2147483647 1, Return 10 (- 7), Call 10 (- 2147483648) 1,
            Return 10 0])"
proof -
  let ?s = "example_system [] 10 (example_job (- 2147483647) 0 1 (- 7))
           (example_wrapping_caller (InParallelTask 10 (example_job (- 2147483648) 1 1 (- 7))))
           [Submit 10 (task (example_job 2147483647 2 0 0)), Call 10 2147483647 1, Return 10 (- 7), Call 10 (- 2147483648) 1]"
  have "step ?s \<lparr>shared = finish_job 10 (example_job (- 2147483647) 0 1 (- 7)) 0 (shared ?s),
      pool = (pool ?s)[0 := (example_wrapping_caller (InParallelTask 10 (example_job (- 2147483648) 1 1 (- 7))))
                \<lparr>activity := AtLoopHead\<rparr>],
      trace = trace ?s @ [Return 10 0]\<rparr>"
    by (rule step.task_returns [where myjob = "example_job (- 2147483648) 1 1 (- 7)"])
      (simp_all add: wrap_defs)
  then show ?thesis by (simp add: finish_job_def running_def Let_def wrap_defs)
qed

lemma example_wrap_6:
  "step (example_system [] 10 (example_job (- 2147483647) 0 0 (- 7)) (example_wrapping_caller AtLoopHead)
           [Submit 10 (task (example_job 2147483647 2 0 0)), Call 10 2147483647 1, Return 10 (- 7), Call 10 (- 2147483648) 1,
            Return 10 0])
        (example_system [] 10 (example_job (- 2147483647) 0 0 (- 7)) (example_wrapping_caller (Returned (- 7)))
           [Submit 10 (task (example_job 2147483647 2 0 0)), Call 10 2147483647 1, Return 10 (- 7), Call 10 (- 2147483648) 1,
            Return 10 0])"
proof -
  let ?s = "example_system [] 10 (example_job (- 2147483647) 0 0 (- 7)) (example_wrapping_caller AtLoopHead)
           [Submit 10 (task (example_job 2147483647 2 0 0)), Call 10 2147483647 1, Return 10 (- 7), Call 10 (- 2147483648) 1,
            Return 10 0]"
  have "step ?s (?s\<lparr>pool := (pool ?s)[0 := leave_loop
      (Option.bind (owned_job_of (example_wrapping_caller AtLoopHead)) (mem (shared ?s)))
      (example_wrapping_caller AtLoopHead)]\<rparr>)"
    by (rule step.leave) (simp_all add: dispatch_defs wrap_defs)
  then show ?thesis by (simp add: leave_loop_def owned_job_of_def wrap_defs)
qed

lemma example_wrap_reachable:
  "reachable (example_system [] 10 (example_job (- 2147483647) 0 0 (- 7)) (example_wrapping_caller (Returned (- 7)))
           [Submit 10 (task (example_job 2147483647 2 0 0)), Call 10 2147483647 1, Return 10 (- 7), Call 10 (- 2147483648) 1,
            Return 10 0])"
  by (intro reachable.next_state [OF _ example_wrap_6] reachable.next_state [OF _ example_wrap_5]
      reachable.next_state [OF _ example_wrap_4] reachable.next_state [OF _ example_wrap_3]
      reachable.next_state [OF _ example_wrap_2] reachable.next_state [OF _ example_wrap_1]
      reachable.start)

lemma example_wrapped_final_reachable: "reachable example_wrapped_final"
  unfolding example_wrapped_final_def by (rule example_wrap_reachable)

subsection \<open>A run with two jobs\<close>

















section \<open>The results at the states of the runs\<close>

text \<open>
  The theorems about completed calls, the exit status and the number of threads, at the
  states of the runs above.
\<close>

theorem par_for_each_iteration_once_witness:
  "reachable example_final \<and> int_arguments (trace example_final)
   \<and> call (pool example_final ! 0) = Par_for 10 0 2
   \<and> activity (pool example_final ! 0) = Returned (- 7)
   \<and> calls_of 10 (trace example_final) = [(0, 1), (1, 1)]
   \<and> length (returns_of 10 (trace example_final)) = 2
   \<and> (\<exists>w. mem (shared example_final) 10 = Some w \<and> exit_status w = - 7
          \<and> extent (task w) = 0 \<and> active_workers w = 0)
   \<and> 10 \<notin> set (jobs (work_queue (shared example_final)))
   \<and> reachable example_wrapped_final \<and> int_arguments (trace example_wrapped_final)
   \<and> call (pool example_wrapped_final ! 0) = Par_for 10 2147483647 2
   \<and> activity (pool example_wrapped_final ! 0) = Returned (- 7)
   \<and> calls_of 10 (trace example_wrapped_final) = [(2147483647, 1), (- 2147483648, 1)]
   \<and> distinct (calls_of 10 (trace example_wrapped_final))
   \<and> fst (claim_job [] 10 [] (example_job 1 1 0 (- 7)) (shared example_failed))
       = InParallelTask 10 (example_job 1 1 1 (- 7))
   \<and> jobs (work_queue (snd (claim_job [] 10 [] (example_job 1 1 0 (- 7))
                                (shared example_failed)))) = []
   \<and> mem (snd (claim_job [] 10 [] (example_job 2147483647 2 0 0) (shared example_failed))) 10
       = Some (example_job (- 2147483648) 1 1 0)"
proof -
  have t: "0 < length (pool example_final)"
    and c: "call (pool example_final ! 0) = Par_for 10 0 2"
    and a: "activity (pool example_final ! 0) = Returned (- 7)"
    and i: "int_arguments (trace example_final)"
    by (simp_all add: example_final_def example_trace_def example_system_def example_caller_def
        example_job_def par_for_job_def is_int_def)
  have t': "0 < length (pool example_wrapped_final)"
    and c': "call (pool example_wrapped_final ! 0) = Par_for 10 2147483647 2"
    and a': "activity (pool example_wrapped_final ! 0) = Returned (- 7)"
    and i': "int_arguments (trace example_wrapped_final)"
    by (simp_all add: example_wrapped_final_def example_system_def example_wrapping_caller_def
        example_job_def par_for_job_def is_int_def)
  have pos: "(0 :: int) < 2" by simp
  note w = par_for_each_iteration_once [OF example_final_reachable i t c pos a]
  note w' = par_for_each_iteration_once [OF example_wrapped_final_reachable i' t' c' pos a']
  have "calls_of 10 (trace example_final) = [(0, 1), (1, 1)]"
    using w by (simp add: upto.simps int_wrap_def)
  moreover have "length (returns_of 10 (trace example_final)) = 2"
    using w by simp
  moreover have "\<exists>w. mem (shared example_final) 10 = Some w \<and> exit_status w = - 7
          \<and> extent (task w) = 0 \<and> active_workers w = 0"
    using w by (simp add: example_final_def example_system_def example_job_def)
  moreover have "10 \<notin> set (jobs (work_queue (shared example_final)))"
    using w by auto
  moreover have "calls_of 10 (trace example_wrapped_final)
      = [(2147483647, 1), (- 2147483648, 1)]"
    using w' by (simp add: upto.simps int_wrap_def)
  moreover have "distinct (calls_of 10 (trace example_wrapped_final))"
    using w' by blast
  moreover have "fst (claim_job [] 10 [] (example_job 1 1 0 (- 7)) (shared example_failed))
       = InParallelTask 10 (example_job 1 1 1 (- 7))
   \<and> jobs (work_queue (snd (claim_job [] 10 [] (example_job 1 1 0 (- 7))
                                (shared example_failed)))) = []
   \<and> mem (snd (claim_job [] 10 [] (example_job 2147483647 2 0 0) (shared example_failed))) 10
       = Some (example_job (- 2147483648) 1 1 0)"
    using w by (simp add: claim_job_def example_job_def par_for_job_def Let_def int_wrap_def
        example_failed_def example_system_def example_queue_def)
  ultimately show ?thesis
    using example_final_reachable example_wrapped_final_reachable c a i c' a' i' by simp
qed



theorem exit_status_never_reset_witness:
  "step initial_system
     (example_system [10] 10 (example_job 0 2 0 0) (example_caller AtLoopHead)
        [Submit 10 (task (example_job 0 2 0 0))])
   \<and> mem (shared initial_system) 10 = None
   \<and> (\<exists>w. mem (shared (example_system [10] 10 (example_job 0 2 0 0)
                 (example_caller AtLoopHead) [Submit 10 (task (example_job 0 2 0 0))])) 10
              = Some w \<and> exit_status w = 0)
   \<and> step\<^sup>*\<^sup>* example_failed example_final
   \<and> (\<exists>w. mem (shared example_failed) 10 = Some w \<and> exit_status w = - 7)
   \<and> returns_of 10 (trace example_final) = [- 7, 0]
   \<and> (\<exists>w. mem (shared example_final) 10 = Some w \<and> exit_status w \<noteq> 0)
   \<and> exit_status (par_for_job 0 7 0 2 0) = 0
   \<and> exit_status (task_job 0 (example_task 1)) = 0
   \<and> (\<exists>w. mem (finish_job 10 (example_job 1 1 1 (- 7)) 0 (shared example_failed)) 10 = Some w
          \<and> exit_status w = - 7)
   \<and> (\<exists>w. mem (finish_job 10 (example_job 1 1 1 0) (- 7) (shared example_failed)) 10 = Some w
          \<and> exit_status w = - 7)"
proof -
  have m0: "mem (shared initial_system) 10 = None"
    by (simp add: initial_system_def initial_machine_def)
  have m1: "mem (shared example_failed) 10 = Some (example_job 1 1 0 (- 7))"
    by (simp add: example_failed_def example_system_def)
  have e1: "exit_status (example_job 1 1 0 (- 7)) \<noteq> 0" by (simp add: example_job_def)
  have "\<exists>w. mem (shared (example_system [10] 10 (example_job 0 2 0 0)
                 (example_caller AtLoopHead) [Submit 10 (task (example_job 0 2 0 0))])) 10
              = Some w \<and> exit_status w = 0"
    using exit_status_never_reset [where s = initial_system
        and s' = "example_system [10] 10 (example_job 0 2 0 0) (example_caller AtLoopHead)
           [Submit 10 (task (example_job 0 2 0 0))]" and a = 10]
      example_run_1 m0
    by (simp add: example_system_def)
  moreover have "\<exists>w. mem (shared example_final) 10 = Some w \<and> exit_status w \<noteq> 0"
    using exit_status_never_reset [where s = example_failed and s' = example_final and a = 10
        and ?w1.0 = "example_job 1 1 0 (- 7)"]
      example_failed_steps m1 e1
    by simp
  moreover have "returns_of 10 (trace example_final) = [- 7, 0]"
    by (simp add: example_final_def example_system_def example_trace_def)
  moreover have "\<exists>w. mem (finish_job 10 (example_job 1 1 1 (- 7)) 0 (shared example_failed)) 10 = Some w
          \<and> exit_status w = - 7"
    using exit_status_never_reset [where job = 10 and w = "example_job 1 1 1 (- 7)" and r = 0
        and m = "shared example_failed"]
    by (simp add: example_job_def)
  moreover have "\<exists>w. mem (finish_job 10 (example_job 1 1 1 0) (- 7) (shared example_failed)) 10 = Some w
          \<and> exit_status w = - 7"
    using exit_status_never_reset [where job = 10 and w = "example_job 1 1 1 0" and r = "- 7"
        and m = "shared example_failed"]
    by (simp add: example_job_def)
  moreover have "exit_status (par_for_job 0 7 0 2 0) = 0
     \<and> exit_status (task_job 0 (example_task 1)) = 0"
    using exit_status_never_reset [where uc = 0 and f = 7 and mn = 0 and sz = 2 and cl = 0
        and t = "example_task 1"] by simp
  ultimately show ?thesis using example_run_1 example_failed_steps m0 m1
    by (simp add: example_job_def)
qed

theorem desired_threads_within_bounds_witness:
  "reachable example_final \<and> enqueued_before example_final
   \<and> desired_threads_working (work_queue (shared example_final)) = 1
   \<and> fst (halide_set_num_threads example_env 300 (shared example_final)) = 1
   \<and> desired_threads_working
       (work_queue (snd (halide_set_num_threads example_env 300 (shared example_final)))) = 256
   \<and> desired_threads_working
       (work_queue (snd (halide_set_num_threads example_env 0 (shared example_final)))) = 1
   \<and> desired_threads_working
       (work_queue (snd (halide_set_num_threads example_env (- 5) (shared example_final)))) = 1
   \<and> (\<exists>m. enqueue_work_already_locked example_env 1 [10]
             (initial_machine\<lparr>mem := (\<lambda>_. None)(10 \<mapsto> example_job 0 2 0 0)\<rparr>) = Inr m
          \<and> desired_threads_working (work_queue m) = 1)
   \<and> clamp_num_threads 300 = 256 \<and> clamp_num_threads 0 = 1 \<and> clamp_num_threads 8 = 8"
proof -
  have eb: "enqueued_before example_final"
    unfolding enqueued_before_def
    by (rule exI [of _ 10], rule exI [of _ "task (example_job 0 2 0 0)"])
       (simp add: example_final_def example_system_def example_trace_def)
  have d: "desired_threads_working (work_queue (shared example_final)) = 1"
    by (simp add: example_final_def example_system_def example_queue_def)
  obtain old m' where s: "halide_set_num_threads example_env 300 (shared example_final) = (old, m')"
    by (cases "halide_set_num_threads example_env 300 (shared example_final)")
  obtain m'' where e: "enqueue_work_already_locked example_env 1 [10]
             (initial_machine\<lparr>mem := (\<lambda>_. None)(10 \<mapsto> example_job 0 2 0 0)\<rparr>) = Inr m''"
    by (simp add: enqueue_work_already_locked_def
        read_jobs_def initialize_if_needed_def clamp_num_threads_def MAX_THREADS_def
        default_desired_num_threads_def spawn_threads.simps wake_threads_def Let_def
        halide_cond_broadcast_def initial_machine_def example_defs)
  note w = desired_threads_within_bounds [where s = example_final and env = example_env
      and n = 300 and m = "shared example_final" and old = old and m' = m' and p = 1
      and js = "[10]"
      and ?m1.0 = "initial_machine\<lparr>mem := (\<lambda>_. None)(10 \<mapsto> example_job 0 2 0 0)\<rparr>"
      and ?m2.0 = m'' and k = 300]
  have c: "clamp_num_threads 300 = 256 \<and> clamp_num_threads 0 = 1 \<and> clamp_num_threads 8 = 8"
    by (simp add: clamp_num_threads_def MAX_THREADS_def)
  have "old = 1 \<and> desired_threads_working (work_queue m') = 256"
    using w s d c by simp
  then have "fst (halide_set_num_threads example_env 300 (shared example_final)) = 1
   \<and> desired_threads_working
       (work_queue (snd (halide_set_num_threads example_env 300 (shared example_final)))) = 256"
    using s by simp
  moreover have "desired_threads_working (work_queue m'') = 1"
    using w e by (simp add: initial_machine_def default_desired_num_threads_def example_env_def
        clamp_num_threads_def MAX_THREADS_def)
  then have "\<exists>m. enqueue_work_already_locked example_env 1 [10]
             (initial_machine\<lparr>mem := (\<lambda>_. None)(10 \<mapsto> example_job 0 2 0 0)\<rparr>) = Inr m
          \<and> desired_threads_working (work_queue m) = 1"
    using e by simp
  moreover have "desired_threads_working
       (work_queue (snd (halide_set_num_threads example_env 0 (shared example_final)))) = 1
   \<and> desired_threads_working
       (work_queue (snd (halide_set_num_threads example_env (- 5) (shared example_final)))) = 1"
    by (simp add: halide_set_num_threads_def Let_def default_desired_num_threads_def
        example_env_def clamp_num_threads_def MAX_THREADS_def)
  ultimately show ?thesis using example_final_reachable eb d c by simp
qed

end
